theory Spec2Isabelle
  imports
    Main
    "HOL-Library.Word"
    "HOL-Library.Char_ord"
    "HOL-Library.List_Lexorder"
    "HOL-Library.AList"
begin

unbundle bit_operations_syntax

section \<open>Strings and characters\<close>

text \<open>
  A JavaScript string is a sequence of UTF-16 code units. The embedding covers the strings
  whose code units are all below 256 (Latin-1): such a string is a \<^typ>\<open>string\<close>, one
  \<^typ>\<open>char\<close> per code unit, and \<open>charCodeAt\<close> is \<^const>\<open>of_char\<close>. Strings are
  ordered code unit by code unit, as the default comparison of \<open>Array.prototype.sort\<close> does.
\<close>

definition is_digit :: "char \<Rightarrow> bool" where
  \<comment> \<open>the class \<open>\d\<close>\<close>
  "is_digit c = (CHR ''0'' \<le> c \<and> c \<le> CHR ''9'')"

definition is_hex :: "char \<Rightarrow> bool" where
  \<comment> \<open>the class \<open>[0-9a-f]\<close> under the flag \<open>i\<close>\<close>
  "is_hex c = (is_digit c \<or> (CHR ''a'' \<le> c \<and> c \<le> CHR ''f'') \<or> (CHR ''A'' \<le> c \<and> c \<le> CHR ''F''))"

definition is_word :: "char \<Rightarrow> bool" where
  \<comment> \<open>the class \<open>\w\<close>, which decides \<open>\b\<close>\<close>
  "is_word c = (is_digit c \<or> (CHR ''a'' \<le> c \<and> c \<le> CHR ''z'') \<or> (CHR ''A'' \<le> c \<and> c \<le> CHR ''Z'')
     \<or> c = CHR ''_'')"

definition is_space :: "char \<Rightarrow> bool" where
  \<comment> \<open>white space and line terminators below 256: the class \<open>\s\<close>, and what \<open>trim\<close> strips\<close>
  "is_space c = (c = CHR 0x09 \<or> c = CHR 0x0A \<or> c = CHR 0x0B \<or> c = CHR 0x0C \<or> c = CHR 0x0D
     \<or> c = CHR 0x20 \<or> c = CHR 0xA0)"

definition is_upper :: "char \<Rightarrow> bool" where
  \<comment> \<open>the code units below 256 that \<open>toLowerCase\<close> changes: A-Z, and 0xC0-0xDE without 0xD7\<close>
  "is_upper c = ((CHR ''A'' \<le> c \<and> c \<le> CHR ''Z'') \<or> (CHR 0xC0 \<le> c \<and> c \<le> CHR 0xDE \<and> c \<noteq> CHR 0xD7))"

definition lower_char :: "char \<Rightarrow> char" where
  \<comment> \<open>an upper-case code unit plus 32: bit 5 is clear in each of them, and is set\<close>
  "lower_char c = (if is_upper c
     then (case c of Char b0 b1 b2 b3 b4 b5 b6 b7 \<Rightarrow> Char b0 b1 b2 b3 b4 True b6 b7) else c)"

definition toLowerCase :: "string \<Rightarrow> string" where
  "toLowerCase s = map lower_char s"

definition trim :: "string \<Rightarrow> string" where
  "trim s = rev (dropWhile is_space (rev (dropWhile is_space s)))"

fun join :: "string \<Rightarrow> string list \<Rightarrow> string" where
  \<comment> \<open>\<open>Array.prototype.join\<close>\<close>
  "join sep [] = []"
| "join sep [x] = x"
| "join sep (x # y # ys) = x @ sep @ join sep (y # ys)"

definition padStart :: "nat \<Rightarrow> char \<Rightarrow> string \<Rightarrow> string" where
  "padStart n c s = replicate (n - length s) c @ s"

section \<open>Numbers as text\<close>

definition digit_char :: "nat \<Rightarrow> char" where
  \<comment> \<open>the digit of a value below 16, in lower case\<close>
  "digit_char d = ''0123456789abcdef'' ! d"

function toStringRadix :: "nat \<Rightarrow> nat \<Rightarrow> string" where
  \<comment> \<open>\<open>Number.prototype.toString(radix)\<close> on a non-negative integer, for a radix from 2 to 16\<close>
  "toStringRadix b n =
     (if n < b \<or> b < 2 then [digit_char n] else toStringRadix b (n div b) @ [digit_char (n mod b)])"
  by pat_completeness auto
termination
  by (relation "measure (\<lambda>(b, n). n)") auto

declare toStringRadix.simps [simp del]

section \<open>The rolling hash (generateStableId, lines 100-109)\<close>

type_synonym int32 = "32 word"

definition hash_step :: "int32 \<Rightarrow> char \<Rightarrow> int32" where
  \<comment> \<open>one round of the loop: \<open>hash = ((hash << 5) - hash) + char; hash = hash & hash\<close>\<close>
  "hash_step hash ch =
     (let hash' = (push_bit 5 hash - hash) + of_char ch
      in hash' AND hash')"

definition hashCode :: "string \<Rightarrow> int32" where
  \<comment> \<open>the loop over the code units, from \<open>hash = 0\<close>\<close>
  "hashCode stableString = foldl hash_step 0 stableString"

definition hexId :: "int32 \<Rightarrow> string" where
  \<comment> \<open>\<open>Math.abs(hash).toString(16).padStart(8, '0')\<close>\<close>
  "hexId hash = padStart 8 CHR ''0'' (toStringRadix 16 (nat \<bar>sint hash\<bar>))"

definition to_int32 :: "int \<Rightarrow> int" where
  \<comment> \<open>truncation of an integer to 32 bits, read as two's complement\<close>
  "to_int32 x = (x + 2 ^ 31) mod 2 ^ 32 - 2 ^ 31"

definition poly31 :: "string \<Rightarrow> int" where
  \<comment> \<open>the polynomial hash with multiplier 31, truncated to 32 bits after every character\<close>
  "poly31 s = foldl (\<lambda>acc c. to_int32 (acc * 31 + of_char c)) 0 s"

definition spec_hash :: "string \<Rightarrow> int" where
  \<comment> \<open>the update as the specification words it: \<open>acc = (acc*31 - acc + c)\<close>, truncated\<close>
  "spec_hash s = foldl (\<lambda>acc c. to_int32 (acc * 31 - acc + of_char c)) 0 s"

section \<open>Regular expressions and global replacement\<close>

text \<open>
  The five patterns of \<open>normalizeMessage\<close> are built from character classes, \<open>\b\<close>,
  sequencing, \<open>{n}\<close>, \<open>?\<close> and \<open>+\<close> on a class. A matcher state is the rest of the
  input together with whether the code unit before it is a word character, which is all
  that \<open>\b\<close> reads of the past. \<open>matches r st\<close> lists the states in which a match of
  \<open>r\<close> from \<open>st\<close> can end, in the order in which the backtracking matcher tries them
  (greedy quantifiers take the longer alternative first); its head is the match.
\<close>

datatype regex =
    Eps
  | Cls "char \<Rightarrow> bool"
  | Bnd
  | Seq regex regex
  | Rep nat regex
  | Opt regex
  | PlusCls "char \<Rightarrow> bool"

type_synonym mstate = "bool \<times> string"

fun plus_cls :: "(char \<Rightarrow> bool) \<Rightarrow> string \<Rightarrow> mstate list" where
  "plus_cls P [] = []"
| "plus_cls P (c # cs) = (if P c then plus_cls P cs @ [(is_word c, cs)] else [])"

definition at_boundary :: "mstate \<Rightarrow> bool" where
  \<comment> \<open>\<open>\b\<close>: exactly one of the code units before and after the position is a word character\<close>
  "at_boundary st = (fst st \<noteq> (case snd st of [] \<Rightarrow> False | c # cs \<Rightarrow> is_word c))"

primrec regex_size :: "regex \<Rightarrow> nat" where
  \<comment> \<open>the measure by which the matcher terminates\<close>
  "regex_size Eps = 0"
| "regex_size (Cls P) = 0"
| "regex_size Bnd = 0"
| "regex_size (Seq r1 r2) = Suc (regex_size r1 + regex_size r2)"
| "regex_size (Rep n r) = Suc (n + regex_size r)"
| "regex_size (Opt r) = Suc (regex_size r)"
| "regex_size (PlusCls P) = 0"

function (sequential) matches :: "regex \<Rightarrow> mstate \<Rightarrow> mstate list" where
  "matches Eps st = [st]"
| "matches (Cls P) st = (case snd st of [] \<Rightarrow> [] | c # cs \<Rightarrow> if P c then [(is_word c, cs)] else [])"
| "matches Bnd st = (if at_boundary st then [st] else [])"
| "matches (Seq r1 r2) st = concat (map (matches r2) (matches r1 st))"
| "matches (Rep 0 r) st = [st]"
| "matches (Rep (Suc n) r) st = concat (map (matches (Rep n r)) (matches r st))"
| "matches (Opt r) st = matches r st @ [st]"
| "matches (PlusCls P) st = plus_cls P (snd st)"
  by pat_completeness auto
termination
  by (relation "measure (\<lambda>(r, st). regex_size r)") auto

function replaceAll :: "regex \<Rightarrow> string \<Rightarrow> bool \<Rightarrow> string \<Rightarrow> string" where
  \<comment> \<open>\<open>s.replace(/r/g, rep)\<close>, scanning from a position whose left neighbour is a word
      character or not (\<open>w\<close>): a match is replaced and the scan goes on behind it; where
      nothing matches, and behind an empty match, one code unit is copied\<close>
  "replaceAll r rep w s =
     (case matches r (w, s) of
        [] \<Rightarrow> (case s of [] \<Rightarrow> [] | c # cs \<Rightarrow> c # replaceAll r rep (is_word c) cs)
      | st # _ \<Rightarrow>
          if length (snd st) < length s then rep @ replaceAll r rep (fst st) (snd st)
          else (case s of [] \<Rightarrow> rep | c # cs \<Rightarrow> rep @ c # replaceAll r rep (is_word c) cs))"
  by pat_completeness auto
termination
  by (relation "measure (\<lambda>(r, rep, w, s). length s)") auto

declare replaceAll.simps [simp del]

definition replace_g :: "regex \<Rightarrow> string \<Rightarrow> string \<Rightarrow> string" where
  \<comment> \<open>the replacement over a whole string: nothing lies before its first code unit\<close>
  "replace_g r rep s = replaceAll r rep False s"

definition seq :: "regex list \<Rightarrow> regex" where
  "seq rs = foldr Seq rs Eps"

definition chr_ci :: "char \<Rightarrow> char \<Rightarrow> bool" where
  \<comment> \<open>a letter of a pattern under the flag \<open>i\<close>\<close>
  "chr_ci a c = (lower_char c = lower_char a)"

definition uuid_re :: regex where
  \<comment> \<open>\<open>/[0-9a-f]{8}-[0-9a-f]{4}-[0-9a-f]{4}-[0-9a-f]{4}-[0-9a-f]{12}/gi\<close>\<close>
  "uuid_re = seq [Rep 8 (Cls is_hex), Cls ((=) CHR ''-''), Rep 4 (Cls is_hex), Cls ((=) CHR ''-''),
     Rep 4 (Cls is_hex), Cls ((=) CHR ''-''), Rep 4 (Cls is_hex), Cls ((=) CHR ''-''),
     Rep 12 (Cls is_hex)]"

definition timestamp_re :: regex where
  \<comment> \<open>\<open>/\d{4}-\d{2}-\d{2}T\d{2}:\d{2}:\d{2}(\.\d{3})?Z?/gi\<close>\<close>
  "timestamp_re = seq [Rep 4 (Cls is_digit), Cls ((=) CHR ''-''), Rep 2 (Cls is_digit),
     Cls ((=) CHR ''-''), Rep 2 (Cls is_digit), Cls (chr_ci CHR ''T''), Rep 2 (Cls is_digit),
     Cls ((=) CHR '':''), Rep 2 (Cls is_digit), Cls ((=) CHR '':''), Rep 2 (Cls is_digit),
     Opt (Seq (Cls ((=) CHR ''.'')) (Rep 3 (Cls is_digit))), Opt (Cls (chr_ci CHR ''Z''))]"

definition timestamp_ms_re :: regex where
  \<comment> \<open>\<open>/\b\d{13}\b/g\<close>\<close>
  "timestamp_ms_re = seq [Bnd, Rep 13 (Cls is_digit), Bnd]"

definition number_re :: regex where
  \<comment> \<open>\<open>/\b\d+\b/g\<close>\<close>
  "number_re = seq [Bnd, PlusCls is_digit, Bnd]"

definition spaces_re :: regex where
  \<comment> \<open>\<open>/\s+/g\<close>\<close>
  "spaces_re = PlusCls is_space"

section \<open>normalizeMessage (lines 34-51)\<close>

definition normalizeMessage :: "string \<Rightarrow> string" where
  "normalizeMessage message =
     (if message = [] then []
      else
        let normalized = trim (toLowerCase message);
            normalized = replace_g uuid_re ''UUID'' normalized;
            normalized = replace_g timestamp_re ''TIMESTAMP'' normalized;
            normalized = replace_g timestamp_ms_re ''TIMESTAMP_MS'' normalized;
            normalized = replace_g number_re ''NUMBER'' normalized;
            normalized = replace_g spaces_re '' '' normalized
        in normalized)"

section \<open>Values and objects\<close>

text \<open>
  The values a metadata mapping holds: \<open>undefined\<close>, \<open>null\<close>, booleans, numbers, strings
  and plain objects. A number \<open>JNum n\<close> is the integer \<open>n\<close> of magnitude at most \<open>2^53\<close>:
  these are the integers that a number holds exactly and that \<open>String\<close> writes digit by
  digit; larger integers, fractions, \<open>NaN\<close> and the infinities are not values of the
  embedding. An object is the list of its own properties in the order \<open>Object.entries\<close>
  gives them; its keys are distinct, none of them is \<open>toString\<close>, and its prototype is
  \<open>Object.prototype\<close>, so that \<open>String\<close> reaches the \<open>toString\<close> it inherits and returns:
  an object whose own \<open>toString\<close> is not a function, on which \<open>String\<close> throws, is not a
  value of the embedding either.
\<close>

datatype jsval =
    JUndefined
  | JNull
  | JBool bool
  | JNum int
  | JStr string
  | JObj "(string \<times> jsval) list"

type_synonym Metadata = "(string \<times> jsval) list"

definition String_of :: "jsval \<Rightarrow> string" where
  \<comment> \<open>the conversion \<open>String(value)\<close>\<close>
  "String_of v =
     (case v of
        JUndefined \<Rightarrow> ''undefined''
      | JNull \<Rightarrow> ''null''
      | JBool b \<Rightarrow> (if b then ''true'' else ''false'')
      | JNum n \<Rightarrow> (if n < 0 then ''-'' @ toStringRadix 10 (nat (- n)) else toStringRadix 10 (nat n))
      | JStr s \<Rightarrow> s
      | JObj ps \<Rightarrow> ''[object Object]'')"

definition get_prop :: "Metadata \<Rightarrow> string \<Rightarrow> jsval" where
  \<comment> \<open>the property read \<open>obj[key]\<close>: \<open>undefined\<close> where the object has no such key\<close>
  "get_prop obj key = (case map_of obj key of None \<Rightarrow> JUndefined | Some v \<Rightarrow> v)"

section \<open>filterMetadata (lines 56-71)\<close>

definition allowedKeys :: "string set" where
  "allowedKeys = set [''type'', ''code'', ''field'', ''operation'', ''service'', ''component'']"

definition filterMetadata :: "jsval \<Rightarrow> Metadata" where
  \<comment> \<open>everything but an object is answered by \<open>{}\<close>; the loop assigns \<open>filtered[key] = value\<close>\<close>
  "filterMetadata metadata =
     (case metadata of
        JObj entries \<Rightarrow>
          foldl (\<lambda>filtered (key, value).
                   if key \<in> allowedKeys \<and> value \<noteq> JUndefined \<and> value \<noteq> JNull
                   then AList.update key value filtered else filtered)
                [] entries
      | _ \<Rightarrow> [])"

section \<open>generateStableId (lines 76-110)\<close>

definition stableString :: "string \<Rightarrow> string option \<Rightarrow> jsval \<Rightarrow> string" where
  \<comment> \<open>lines 82-98; an absent category is \<open>None\<close>\<close>
  "stableString message category metadata =
     (let parts = [''message:'' @ normalizeMessage message,
                   ''category:'' @ trim (toLowerCase (case category of None \<Rightarrow> [] | Some c \<Rightarrow> c))];
          filtered = filterMetadata metadata;
          sortedKeys = sort (map fst filtered);
          parts = (if length sortedKeys > 0
                   then parts @ [''metadata:'' @ join '',''
                          (map (\<lambda>key. key @ '':'' @ trim (toLowerCase (String_of (get_prop filtered key))))
                               sortedKeys)]
                   else parts)
      in join ''|'' parts)"

definition generateStableId :: "string \<Rightarrow> string option \<Rightarrow> jsval \<Rightarrow> string" where
  "generateStableId message category metadata =
     (let stableString = stableString message category metadata;
          hash = hashCode stableString
      in hexId hash)"

section \<open>createStableError (lines 117-180)\<close>

datatype ErrorSeverity = low | medium | high | critical

record StableErrorOptions =
  category :: "string option"
  metadata :: "Metadata option"
  severity :: "ErrorSeverity option"
  statusCode :: "int option"

text \<open>The properties of an \<open>Error\<close> that the function reads and writes.\<close>

record Error =
  message :: string
  name :: string
  stack :: "string option"

datatype messageOrError = Message string | Wrapped Error

text \<open>
  What a call takes from its host: the clock, and the stack that \<open>new Error(message)\<close>
  is born with.
\<close>

record host =
  toISOString_now :: string
  new_Error_stack :: "string option"

record StableError = Error +
  id :: string
  category :: string
  metadata :: Metadata
  severity :: ErrorSeverity
  timestamp :: string
  statusCode :: int

definition no_options :: StableErrorOptions where
  \<comment> \<open>the default \<open>options = {}\<close>\<close>
  "no_options = \<lparr>StableErrorOptions.category = None, StableErrorOptions.metadata = None,
     StableErrorOptions.severity = None, StableErrorOptions.statusCode = None\<rparr>"

definition merged_metadata :: "messageOrError \<Rightarrow> StableErrorOptions \<Rightarrow> Metadata" where
  \<comment> \<open>lines 137-143: the spread of \<open>options.metadata\<close>, then of the two original properties
      when an error is wrapped\<close>
  "merged_metadata messageOrError options =
     (let base = (case StableErrorOptions.metadata options of None \<Rightarrow> [] | Some m \<Rightarrow> m)
      in case messageOrError of
           Message s \<Rightarrow> base
         | Wrapped e \<Rightarrow>
             AList.update ''originalStack'' (case stack e of None \<Rightarrow> JUndefined | Some s \<Rightarrow> JStr s)
               (AList.update ''originalName'' (JStr (name e)) base))"

definition createStableError :: "host \<Rightarrow> messageOrError \<Rightarrow> StableErrorOptions \<Rightarrow> StableError" where
  "createStableError h messageOrError options =
     (let message = (case messageOrError of Message s \<Rightarrow> s | Wrapped e \<Rightarrow> Error.message e);
          originalStack = (case messageOrError of Message s \<Rightarrow> None | Wrapped e \<Rightarrow> stack e);
          category = (case StableErrorOptions.category options of
                        None \<Rightarrow> ''general'' | Some c \<Rightarrow> if c = [] then ''general'' else c);
          statusCode = (case StableErrorOptions.statusCode options of
                          None \<Rightarrow> 500 | Some n \<Rightarrow> if n = 0 then 500 else n);
          metadata = merged_metadata messageOrError options;
          severity = (case StableErrorOptions.severity options of None \<Rightarrow> medium | Some v \<Rightarrow> v);
          timestamp = toISOString_now h;
          id = generateStableId message (Some category) (JObj metadata)
      in \<lparr>message = message, name = ''StableError'',
          stack = (case originalStack of
                     None \<Rightarrow> new_Error_stack h
                   | Some s \<Rightarrow> if s = [] then new_Error_stack h else Some s),
          id = id, category = category, metadata = metadata, severity = severity,
          timestamp = timestamp, statusCode = statusCode\<rparr>)"

definition severity_text :: "ErrorSeverity \<Rightarrow> string" where
  "severity_text v = (case v of low \<Rightarrow> ''low'' | medium \<Rightarrow> ''medium'' | high \<Rightarrow> ''high''
     | critical \<Rightarrow> ''critical'')"

definition toJSON :: "StableError \<Rightarrow> (string \<times> jsval) list" where
  \<comment> \<open>lines 166-177: the object literal, property by property\<close>
  "toJSON this =
     [(''id'', JStr (id this)),
      (''message'', JStr (message this)),
      (''category'', JStr (category this)),
      (''metadata'', JObj (metadata this)),
      (''severity'', JStr (severity_text (severity this))),
      (''timestamp'', JStr (timestamp this)),
      (''statusCode'', JNum (statusCode this)),
      (''stack'', (case stack this of None \<Rightarrow> JUndefined | Some s \<Rightarrow> JStr s))]"

section \<open>The canonical string as the specification words it\<close>

definition surviving_keys :: "Metadata \<Rightarrow> string list" where
  \<comment> \<open>the allow-listed keys whose value is neither absent nor null, in ascending order\<close>
  "surviving_keys md =
     sorted_list_of_set {k \<in> allowedKeys. \<exists>v. map_of md k = Some v \<and> v \<noteq> JUndefined \<and> v \<noteq> JNull}"

definition canonical_spec :: "string \<Rightarrow> string option \<Rightarrow> Metadata \<Rightarrow> string" where
  \<comment> \<open>\<open>message:<normalize(message)>|category:<lowercase-trim(category or "")>\<close>, then
      \<open>|metadata:<k1>:<v1>,<k2>:<v2>,...\<close> only if a key survives\<close>
  "canonical_spec msg cat md =
     ''message:'' @ normalizeMessage msg
     @ ''|category:'' @ trim (toLowerCase (case cat of None \<Rightarrow> [] | Some c \<Rightarrow> c))
     @ (if surviving_keys md = [] then []
        else ''|metadata:'' @ join '',''
               (map (\<lambda>k. k @ '':'' @ trim (toLowerCase (String_of (get_prop md k)))) (surviving_keys md)))"

definition agree_on_allowed :: "Metadata \<Rightarrow> Metadata \<Rightarrow> bool" where
  \<comment> \<open>two mappings give every allow-listed key the same value, or both none\<close>
  "agree_on_allowed md1 md2 = (\<forall>k \<in> allowedKeys. map_of md1 k = map_of md2 k)"

definition message_of :: "messageOrError \<Rightarrow> string" where
  "message_of src = (case src of Message s \<Rightarrow> s | Wrapped e \<Rightarrow> message e)"

definition metadata_of :: "StableErrorOptions \<Rightarrow> Metadata" where
  \<comment> \<open>\<open>options.metadata\<close>, an absent one spreading to nothing\<close>
  "metadata_of options = (case StableErrorOptions.metadata options of None \<Rightarrow> [] | Some m \<Rightarrow> m)"

section \<open>Texts, scans and what the later rules leave\<close>

text \<open>
  What the statements about the normalizer are written with: a run of digits of a given
  length; what stands beside a text (a character of a class, or an end); a text of the shape
  \<open>YYYY-MM-DDThh:mm:ss\<close> with an optional fraction of exactly three digits and an optional
  \<open>Z\<close>, and whether what follows it would still be taken by the pattern; the position of the
  left-to-right scan of a replacement; and the rules that run after another one.
\<close>

definition non_word :: "char \<Rightarrow> bool" where
  "non_word c = (\<not> is_word c)"

definition delimited :: "(char \<Rightarrow> bool) \<Rightarrow> string \<Rightarrow> string \<Rightarrow> bool" where
  \<comment> \<open>what stands between \<open>pre\<close> and \<open>post\<close> has a character of \<open>S\<close>, or an end of the
      text, on either side; with \<open>non_word\<close> it is word-bounded when it is a run of digits\<close>
  "delimited S pre post = ((pre = [] \<or> S (last pre)) \<and> (post = [] \<or> S (hd post)))"

definition digits :: "nat \<Rightarrow> string \<Rightarrow> bool" where
  "digits n s = (length s = n \<and> list_all is_digit s)"

definition iso_text ::
  "string \<Rightarrow> string \<Rightarrow> string \<Rightarrow> char \<Rightarrow> string \<Rightarrow> string \<Rightarrow> string \<Rightarrow> string \<Rightarrow> string \<Rightarrow> string" where
  "iso_text Y M D t h mi s frac z =
     Y @ ''-'' @ M @ ''-'' @ D @ [t] @ h @ '':'' @ mi @ '':'' @ s @ frac @ z"

definition iso_parts ::
  "string \<Rightarrow> string \<Rightarrow> string \<Rightarrow> char \<Rightarrow> string \<Rightarrow> string \<Rightarrow> string \<Rightarrow> string \<Rightarrow> string \<Rightarrow> bool" where
  \<comment> \<open>the fraction is absent or a point and exactly three digits; the zone is absent or Z\<close>
  "iso_parts Y M D t h mi s frac z =
     (digits 4 Y \<and> digits 2 M \<and> digits 2 D \<and> (t = CHR ''T'' \<or> t = CHR ''t'')
      \<and> digits 2 h \<and> digits 2 mi \<and> digits 2 s
      \<and> (frac = [] \<or> (hd frac = CHR ''.'' \<and> digits 3 (tl frac)))
      \<and> (z = [] \<or> z = ''Z'' \<or> z = ''z''))"

definition continues :: "string \<Rightarrow> string \<Rightarrow> string \<Rightarrow> bool" where
  \<comment> \<open>the text behind a timestamp begins with a \<open>Z\<close> or a fraction that the timestamp lacks
      and the pattern would take: the timestamp is then the longer text\<close>
  "continues frac z post =
     ((z = [] \<and> post \<noteq> [] \<and> chr_ci CHR ''Z'' (hd post))
      \<or> (frac = [] \<and> z = [] \<and> post \<noteq> [] \<and> hd post = CHR ''.''
          \<and> 3 \<le> length (tl post) \<and> list_all is_digit (take 3 (tl post))))"

definition timestamp_char :: "char \<Rightarrow> bool" where
  \<comment> \<open>the characters that the pattern of line 43 accepts somewhere\<close>
  "timestamp_char c = (is_digit c \<or> c \<in> set ''-:.TtZz'')"

function scan_to :: "regex \<Rightarrow> string \<Rightarrow> bool \<Rightarrow> string \<Rightarrow> nat \<Rightarrow> (string \<times> bool) option" where
  \<comment> \<open>the scan of \<open>replaceAll\<close> followed for \<open>k\<close> code units of the input: what it has
      written and the word flag there, if it stands at that offset to look for the next
      match; \<open>None\<close> if a match it found reaches across the offset\<close>
  "scan_to r rep w s k =
     (if k = 0 then Some ([], w)
      else case matches r (w, s) of
        [] \<Rightarrow> (case s of [] \<Rightarrow> None
               | c # cs \<Rightarrow> map_option (\<lambda>p. (c # fst p, snd p)) (scan_to r rep (is_word c) cs (k - 1)))
      | st # _ \<Rightarrow>
          if length (snd st) < length s
          then (if length s - length (snd st) \<le> k
                then map_option (\<lambda>p. (rep @ fst p, snd p))
                       (scan_to r rep (fst st) (snd st) (k - (length s - length (snd st))))
                else None)
          else (case s of [] \<Rightarrow> None
                | c # cs \<Rightarrow> map_option (\<lambda>p. (rep @ c # fst p, snd p)) (scan_to r rep (is_word c) cs (k - 1))))"
  by pat_completeness auto
termination
  by (relation "measure (\<lambda>(r, rep, w, s, k). length s)") auto

declare scan_to.simps [simp del]

definition digit_rules :: "string \<Rightarrow> string" where
  \<comment> \<open>lines 44-48: the rules that run after the UUID and the timestamp rule\<close>
  "digit_rules s =
     replace_g spaces_re '' ''
       (replace_g number_re ''NUMBER''
         (replace_g timestamp_ms_re ''TIMESTAMP_MS'' s))"

definition front :: "string \<Rightarrow> string" where
  \<comment> \<open>lines 44-48 on a text that the placeholder \<open>TIMESTAMP\<close> follows: a run of digits at
      its end has a word character behind it\<close>
  "front a =
     replace_g spaces_re '' ''
       (butlast (replace_g number_re ''NUMBER'' (replace_g timestamp_ms_re ''TIMESTAMP_MS'' (a @ ''T''))))"

definition behind :: "string \<Rightarrow> string" where
  \<comment> \<open>lines 43-48 on the text behind a replaced timestamp: the scans go on with a word
      character before them\<close>
  "behind b =
     replace_g spaces_re '' ''
       (replaceAll number_re ''NUMBER'' True
         (replaceAll timestamp_ms_re ''TIMESTAMP_MS'' True
           (replaceAll timestamp_re ''TIMESTAMP'' True b)))"

text \<open>Notions of the proofs about the matcher.\<close>

primrec sep :: "char \<Rightarrow> regex \<Rightarrow> bool" where
  \<comment> \<open>no class of the pattern accepts the character, and \<open>\b\<close> sees it as a non-word one\<close>
  "sep c Eps = True"
| "sep c (Cls P) = (\<not> P c)"
| "sep c Bnd = (\<not> is_word c)"
| "sep c (Seq r1 r2) = (sep c r1 \<and> sep c r2)"
| "sep c (Rep n r) = sep c r"
| "sep c (Opt r) = sep c r"
| "sep c (PlusCls P) = (\<not> P c)"

primrec rejects :: "char \<Rightarrow> regex \<Rightarrow> bool" where
  \<comment> \<open>no class of the pattern accepts the character\<close>
  "rejects c Eps = True"
| "rejects c (Cls P) = (\<not> P c)"
| "rejects c Bnd = True"
| "rejects c (Seq r1 r2) = (rejects c r1 \<and> rejects c r2)"
| "rejects c (Rep n r) = rejects c r"
| "rejects c (Opt r) = rejects c r"
| "rejects c (PlusCls P) = (\<not> P c)"

primrec min_len :: "regex \<Rightarrow> nat" where
  \<comment> \<open>the least number of code units a match consumes\<close>
  "min_len Eps = 0"
| "min_len (Cls P) = 1"
| "min_len Bnd = 0"
| "min_len (Seq r1 r2) = min_len r1 + min_len r2"
| "min_len (Rep n r) = n * min_len r"
| "min_len (Opt r) = 0"
| "min_len (PlusCls P) = 1"

definition ext :: "string \<Rightarrow> mstate \<Rightarrow> mstate" where
  \<comment> \<open>a matcher state with more input behind it\<close>
  "ext t st = (fst st, snd st @ t)"

definition ends_with :: "char \<Rightarrow> mstate \<Rightarrow> bool" where
  "ends_with c st = (snd st \<noteq> [] \<and> last (snd st) = c)"

definition splits_at :: "(char \<Rightarrow> bool) \<Rightarrow> regex \<Rightarrow> bool" where
  \<comment> \<open>the matches of the pattern neither contain nor look across a character of \<open>S\<close>, and
      the pattern does not match the empty text\<close>
  "splits_at S r = ((\<forall>c. S c \<longrightarrow> sep c r \<and> \<not> is_word c) \<and> matches r (False, []) = [])"

section \<open>The hash: arithmetic\<close>

lemma to_int32_signed: "to_int32 x = signed_take_bit 31 x"
  by (simp add: to_int32_def signed_take_bit_eq_take_bit_shift take_bit_eq_mod)

lemma to_int32_mod: "to_int32 x mod 2 ^ 32 = x mod 2 ^ 32"
proof -
  have "to_int32 x = (x + 2 ^ 31) mod 2 ^ 32 + (- (2 ^ 31))" by (simp add: to_int32_def)
  then have "to_int32 x mod 2 ^ 32 = ((x + 2 ^ 31) mod 2 ^ 32 + (- (2 ^ 31))) mod 2 ^ 32" by simp
  also have "\<dots> = ((x + 2 ^ 31) + (- (2 ^ 31))) mod 2 ^ 32"
    by (rule mod_add_left_eq)
  finally show ?thesis by simp
qed

lemma to_int32_cong:
  assumes "x mod 2 ^ 32 = y mod 2 ^ 32"
  shows "to_int32 x = to_int32 y"
proof -
  have "(x + 2 ^ 31) mod 2 ^ 32 = (x mod 2 ^ 32 + 2 ^ 31) mod 2 ^ 32"
    by (rule mod_add_left_eq [symmetric])
  also have "\<dots> = (y mod 2 ^ 32 + 2 ^ 31) mod 2 ^ 32" by (simp only: assms)
  also have "\<dots> = (y + 2 ^ 31) mod 2 ^ 32" by (rule mod_add_left_eq)
  finally show ?thesis by (simp only: to_int32_def)
qed

lemma shift_form: "to_int32 (to_int32 (a * 32) - a + c) = to_int32 (a * 31 + c)"
proof (rule to_int32_cong)
  have "(to_int32 (a * 32) - a + c) mod 2 ^ 32 = (to_int32 (a * 32) + (c - a)) mod 2 ^ 32"
    by (simp add: algebra_simps)
  also have "\<dots> = (to_int32 (a * 32) mod 2 ^ 32 + (c - a)) mod 2 ^ 32"
    by (rule mod_add_left_eq [symmetric])
  also have "\<dots> = (a * 32 mod 2 ^ 32 + (c - a)) mod 2 ^ 32"
    by (simp only: to_int32_mod)
  also have "\<dots> = (a * 32 + (c - a)) mod 2 ^ 32"
    by (rule mod_add_left_eq)
  finally show "(to_int32 (a * 32) - a + c) mod 2 ^ 32 = (a * 31 + c) mod 2 ^ 32"
    by (simp add: algebra_simps)
qed

lemma hash_step_mult: "hash_step h c = h * 31 + of_char c"
  by (simp add: hash_step_def Let_def push_bit_eq_mult)

lemma of_char_word: "(of_char c :: int32) = word_of_int (of_char c)"
proof -
  have "(of_char c :: int32) = of_nat (of_char c)" by (simp only: of_nat_of_char)
  also have "\<dots> = word_of_int (int (of_char c))" by simp
  also have "int (of_char c) = of_char c" by (simp only: of_nat_of_char)
  finally show ?thesis .
qed

lemma word_of_int_sint32: "word_of_int (sint h) = (h :: int32)"
  by simp

lemma word_of_int_31: "(word_of_int (a * 31 + b) :: int32) = word_of_int a * 31 + word_of_int b"
  by simp

lemma sint_word_of_int32: "sint (word_of_int x :: int32) = signed_take_bit 31 x"
  by (simp add: sint_sbintrunc')

lemma sint_hash_step: "sint (hash_step h c) = to_int32 (sint h * 31 + of_char c)"
proof -
  have "hash_step h c = word_of_int (sint h * 31 + of_char c)"
    by (simp only: word_of_int_31 word_of_int_sint32 of_char_word [symmetric] hash_step_mult)
  then show ?thesis
    by (simp only: sint_word_of_int32 to_int32_signed)
qed

lemma sint_foldl_hash_step:
  "sint (foldl hash_step a s) = foldl (\<lambda>acc c. to_int32 (acc * 31 + of_char c)) (sint a) s"
  by (induction s arbitrary: a) (simp_all add: sint_hash_step)

text \<open>
  C2, as amended. The hash runs left to right from the accumulator 0, and each character code
  \<open>c\<close> updates it to \<open>acc * 31 + c\<close> truncated to a signed 32-bit integer, which is
  \<open>((acc << 5) - acc) + c\<close> wrapped to 32 bits: the multiplier is 31, where the update
  \<open>acc*31 - acc + c\<close> of the claim has the multiplier 30.
\<close>

theorem hashCode_multiplier_31:
  "hashCode [] = 0
   \<and> sint (hashCode (s @ [c])) = to_int32 (sint (hashCode s) * 31 + of_char c)
   \<and> sint (hashCode (s @ [c])) = to_int32 (to_int32 (sint (hashCode s) * 32) - sint (hashCode s) + of_char c)
   \<and> sint (hashCode s) = poly31 s"
proof -
  have "sint (hashCode s) = poly31 s"
    using sint_foldl_hash_step [of 0 s] by (simp add: hashCode_def poly31_def)
  then show ?thesis
    by (simp add: hashCode_def sint_hash_step shift_form)
qed

text \<open>
  C2, as stated, fails: on the two characters \<open>ab\<close> the code computes \<open>97 * 31 + 98 = 3105\<close>,
  the update of the claim \<open>97 * 31 - 97 + 98 = 3008\<close>.
\<close>

theorem hashCode_not_spec_hash: "sint (hashCode ''ab'') \<noteq> spec_hash ''ab''"
  by (simp add: hashCode_def hash_step_def spec_hash_def to_int32_def)

section \<open>The identifier: eight hexadecimal digits\<close>

lemma digit_char_hex: "d < 16 \<Longrightarrow> digit_char d \<in> set ''0123456789abcdef''"
  unfolding digit_char_def by (rule nth_mem) simp

lemma toStringRadix_len: "0 < k \<Longrightarrow> n < 16 ^ k \<Longrightarrow> length (toStringRadix 16 n) \<le> k"
proof (induction k arbitrary: n)
  case 0
  then show ?case by simp
next
  case (Suc k)
  show ?case
  proof (cases "n < 16")
    case True
    then show ?thesis by (simp add: toStringRadix.simps [of 16 n])
  next
    case False
    then have k: "0 < k" using Suc.prems by (cases k) auto
    have "n div 16 < 16 ^ k" using Suc.prems by (simp add: less_mult_imp_div_less mult.commute)
    with Suc.IH k have "length (toStringRadix 16 (n div 16)) \<le> k" by blast
    with False show ?thesis by (simp add: toStringRadix.simps [of 16 n])
  qed
qed

lemma toStringRadix_chars: "set (toStringRadix 16 n) \<subseteq> set ''0123456789abcdef''"
proof (induction n rule: less_induct)
  case (less n)
  show ?case
  proof (cases "n < 16")
    case True
    then show ?thesis
      using digit_char_hex [of n] by (simp add: toStringRadix.simps [of 16 n])
  next
    case False
    then have "n div 16 < n" by simp
    from less.IH [OF this] digit_char_hex [of "n mod 16"] False show ?thesis
      by (simp add: toStringRadix.simps [of 16 n])
  qed
qed

lemma abs_sint_bound: "nat \<bar>sint (h :: int32)\<bar> < 16 ^ 8"
proof -
  have "- (2 ^ 31) \<le> sint h" "sint h < 2 ^ 31"
    using sint_range_size [of h] by (simp_all add: word_size)
  then show ?thesis by simp
qed

lemma hexId_length: "length (hexId h) = 8"
  using toStringRadix_len [of 8 "nat \<bar>sint h\<bar>"] abs_sint_bound [of h]
  by (simp add: hexId_def padStart_def)

lemma hexId_chars: "set (hexId h) \<subseteq> set ''0123456789abcdef''"
  using toStringRadix_chars [of "nat \<bar>sint h\<bar>"]
  by (auto simp add: hexId_def padStart_def)

lemma toStringRadix_digit: "n < b \<Longrightarrow> toStringRadix b n = [digit_char n]"
  by (simp add: toStringRadix.simps [of b n])

lemma toStringRadix_more:
  "\<not> n < b \<Longrightarrow> 2 \<le> b \<Longrightarrow> toStringRadix b n = toStringRadix b (n div b) @ [digit_char (n mod b)]"
  by (simp add: toStringRadix.simps [of b n])

lemma digit_char_simps:
  "digit_char 0 = CHR ''0''" "digit_char 1 = CHR ''1''" "digit_char 2 = CHR ''2''"
  "digit_char 3 = CHR ''3''" "digit_char 4 = CHR ''4''" "digit_char 5 = CHR ''5''"
  "digit_char 6 = CHR ''6''" "digit_char 7 = CHR ''7''" "digit_char 8 = CHR ''8''"
  "digit_char 9 = CHR ''9''" "digit_char 10 = CHR ''a''" "digit_char 11 = CHR ''b''"
  "digit_char 12 = CHR ''c''" "digit_char 13 = CHR ''d''" "digit_char 14 = CHR ''e''"
  "digit_char 15 = CHR ''f''" "digit_char (Suc 0) = CHR ''1''"
  unfolding digit_char_def by (simp_all add: numeral_eq_Suc)

lemmas toStringRadix_eval = toStringRadix_digit toStringRadix_more digit_char_simps

lemma toStringRadix_min: "toStringRadix 16 2147483648 = ''80000000''"
  by (simp add: toStringRadix_eval)

lemma sint_min: "sint (- 2147483648 :: int32) = - 2147483648"
  by simp

lemma hexId_min: "hexId (- 2147483648) = ''80000000''"
  by (simp add: hexId_def sint_min toStringRadix_min padStart_def)

text \<open>
  C3. For every message, category and metadata the derived id has exactly 8 characters, each
  a lower-case hexadecimal digit: the absolute value of the signed 32-bit hash never needs more
  than 8 digits, and the least value \<open>-2^31 = -2147483648\<close> is written \<open>80000000\<close>.
\<close>

theorem generateStableId_shape:
  "length (generateStableId m c md) = 8
   \<and> set (generateStableId m c md) \<subseteq> set ''0123456789abcdef''
   \<and> generateStableId m c md
       = padStart 8 CHR ''0'' (toStringRadix 16 (nat \<bar>sint (hashCode (stableString m c md))\<bar>))
   \<and> length (toStringRadix 16 (nat \<bar>sint (hashCode (stableString m c md))\<bar>)) \<le> 8
   \<and> hexId (- 2147483648) = ''80000000''"
proof -
  have g: "generateStableId m c md = hexId (hashCode (stableString m c md))"
    by (simp add: generateStableId_def Let_def)
  have l: "length (toStringRadix 16 (nat \<bar>sint (hashCode (stableString m c md))\<bar>)) \<le> 8"
    using toStringRadix_len [of 8 "nat \<bar>sint (hashCode (stableString m c md))\<bar>"]
      abs_sint_bound [of "hashCode (stableString m c md)"]
    by simp
  have p: "generateStableId m c md
       = padStart 8 CHR ''0'' (toStringRadix 16 (nat \<bar>sint (hashCode (stableString m c md))\<bar>))"
    unfolding g by (rule hexId_def)
  have n: "length (generateStableId m c md) = 8"
    unfolding g by (rule hexId_length)
  have s: "set (generateStableId m c md) \<subseteq> set ''0123456789abcdef''"
    unfolding g by (rule hexId_chars)
  show ?thesis
    by (intro conjI) (rule n s p l hexId_min)+
qed

section \<open>The metadata filter and the canonical string\<close>

lemma filter_loop_map_of:
  "distinct (map fst es) \<Longrightarrow>
   map_of (foldl (\<lambda>filtered (key, value).
                   if key \<in> allowedKeys \<and> value \<noteq> JUndefined \<and> value \<noteq> JNull
                   then AList.update key value filtered else filtered) acc es) k =
   (case map_of es k of
      Some v \<Rightarrow> if k \<in> allowedKeys \<and> v \<noteq> JUndefined \<and> v \<noteq> JNull then Some v else map_of acc k
    | None \<Rightarrow> map_of acc k)"
proof (induction es arbitrary: acc)
  case Nil
  then show ?case by simp
next
  case (Cons e es)
  obtain k0 v0 where e: "e = (k0, v0)" by (cases e)
  from Cons.prems e have d: "distinct (map fst es)" and n: "map_of es k0 = None"
    by (auto simp add: map_of_eq_None_iff)
  show ?case
    using Cons.IH [OF d] n
    by (auto simp add: e update_conv' split: option.splits)
qed

lemma filter_loop_distinct:
  "distinct (map fst acc) \<Longrightarrow>
   distinct (map fst (foldl (\<lambda>filtered (key, value).
                   if key \<in> allowedKeys \<and> value \<noteq> JUndefined \<and> value \<noteq> JNull
                   then AList.update key value filtered else filtered) acc es))"
  by (induction es arbitrary: acc) (auto simp add: distinct_update)

lemma filterMetadata_map_of:
  "distinct (map fst md) \<Longrightarrow>
   map_of (filterMetadata (JObj md)) k =
   (case map_of md k of
      Some v \<Rightarrow> if k \<in> allowedKeys \<and> v \<noteq> JUndefined \<and> v \<noteq> JNull then Some v else None
    | None \<Rightarrow> None)"
  by (simp add: filterMetadata_def filter_loop_map_of split: option.splits)

lemma filterMetadata_distinct: "distinct (map fst (filterMetadata (JObj md)))"
  by (simp add: filterMetadata_def filter_loop_distinct)

lemma filterMetadata_keys:
  assumes d: "distinct (map fst md)"
  shows "set (map fst (filterMetadata (JObj md))) =
     {k \<in> allowedKeys. \<exists>v. map_of md k = Some v \<and> v \<noteq> JUndefined \<and> v \<noteq> JNull}"
proof -
  have "set (map fst (filterMetadata (JObj md))) = dom (map_of (filterMetadata (JObj md)))"
    by (simp add: dom_map_of_conv_image_fst)
  also have "\<dots> = {k \<in> allowedKeys. \<exists>v. map_of md k = Some v \<and> v \<noteq> JUndefined \<and> v \<noteq> JNull}"
    by (auto simp add: dom_def filterMetadata_map_of [OF d] split: option.splits if_splits)
  finally show ?thesis .
qed

lemma sortedKeys_surviving:
  assumes d: "distinct (map fst md)"
  shows "sort (map fst (filterMetadata (JObj md))) = surviving_keys md"
proof -
  have "sort (map fst (filterMetadata (JObj md)))
      = sorted_list_of_set (set (map fst (filterMetadata (JObj md))))"
    by (simp only: sorted_list_of_set_sort_remdups distinct_remdups_id [OF filterMetadata_distinct])
  then show ?thesis
    by (simp only: filterMetadata_keys [OF d] surviving_keys_def)
qed

lemma surviving_keys_set:
  "set (surviving_keys md) = {k \<in> allowedKeys. \<exists>v. map_of md k = Some v \<and> v \<noteq> JUndefined \<and> v \<noteq> JNull}"
  by (simp add: surviving_keys_def allowedKeys_def)

lemma get_prop_filtered:
  "distinct (map fst md) \<Longrightarrow> k \<in> set (surviving_keys md) \<Longrightarrow>
   get_prop (filterMetadata (JObj md)) k = get_prop md k"
  by (auto simp add: surviving_keys_set get_prop_def filterMetadata_map_of)

lemma stableString_spec:
  assumes "distinct (map fst md)"
  shows "stableString m c (JObj md) = canonical_spec m c md"
proof -
  have m: "map (\<lambda>key. key @ '':'' @ trim (toLowerCase (String_of (get_prop (filterMetadata (JObj md)) key))))
             (surviving_keys md)
         = map (\<lambda>k. k @ '':'' @ trim (toLowerCase (String_of (get_prop md k)))) (surviving_keys md)"
    by (rule map_cong) (simp_all add: get_prop_filtered [OF assms])
  show ?thesis
    unfolding stableString_def canonical_spec_def Let_def sortedKeys_surviving [OF assms] m
    by simp
qed

lemma surviving_keys_sorted: "sorted (surviving_keys md) \<and> distinct (surviving_keys md)"
  by (simp add: surviving_keys_def)

text \<open>
  C4. For an object with distinct keys, the string that is hashed is \<open>message:\<close> and the
  normalized message, \<open>|category:\<close> and the lower-cased, trimmed category (nothing for an
  absent one), and, only if an allow-listed key with a value other than \<open>undefined\<close> and
  \<open>null\<close> survives, \<open>|metadata:\<close> and the entries \<open>key:value\<close> of the surviving keys in
  strictly ascending order, joined by commas, each value in its lower-cased, trimmed text.
\<close>

theorem stableString_canonical:
  assumes "distinct (map fst md)"
  shows "stableString m c (JObj md) = canonical_spec m c md
     \<and> sorted (surviving_keys md) \<and> distinct (surviving_keys md)
     \<and> set (surviving_keys md)
         = {k \<in> allowedKeys. \<exists>v. map_of md k = Some v \<and> v \<noteq> JUndefined \<and> v \<noteq> JNull}"
  using stableString_spec [OF assms] surviving_keys_sorted [of md] surviving_keys_set [of md]
  by (intro conjI) blast+

lemma stableString_example:
  "stableString ''User 123 not found'' (Some ''Validation'')
     (JObj [(''userId'', JStr ''u-1''), (''type'', JStr ''Validation ''), (''field'', JStr ''email''),
            (''code'', JNull)])
   = ''message:user NUMBER not found|category:validation|metadata:field:email,type:validation''"
  by code_simp

theorem stableString_canonical_witness:
  "distinct (map fst [(''userId'', JStr ''u-1''), (''type'', JStr ''Validation ''), (''field'', JStr ''email''),
            (''code'', JNull)])
   \<and> canonical_spec ''User 123 not found'' (Some ''Validation'')
        [(''userId'', JStr ''u-1''), (''type'', JStr ''Validation ''), (''field'', JStr ''email''),
         (''code'', JNull)]
      = ''message:user NUMBER not found|category:validation|metadata:field:email,type:validation''"
proof -
  have d: "distinct (map fst [(''userId'', JStr ''u-1''), (''type'', JStr ''Validation ''),
            (''field'', JStr ''email''), (''code'', JNull)])"
    by simp
  from stableString_canonical [OF d, of "''User 123 not found''" "Some ''Validation''"]
  have "canonical_spec ''User 123 not found'' (Some ''Validation'')
        [(''userId'', JStr ''u-1''), (''type'', JStr ''Validation ''), (''field'', JStr ''email''),
         (''code'', JNull)]
      = stableString ''User 123 not found'' (Some ''Validation'')
        (JObj [(''userId'', JStr ''u-1''), (''type'', JStr ''Validation ''), (''field'', JStr ''email''),
         (''code'', JNull)])"
    by simp
  with d show ?thesis by (simp only: stableString_example)
qed

section \<open>The id depends on the message, the category and the allow-listed metadata only\<close>

lemma agree_surviving:
  "agree_on_allowed md1 md2 \<Longrightarrow> surviving_keys md1 = surviving_keys md2"
  unfolding surviving_keys_def agree_on_allowed_def
  by (rule arg_cong [where f = sorted_list_of_set]) auto

lemma agree_canonical:
  assumes "agree_on_allowed md1 md2"
  shows "canonical_spec m c md1 = canonical_spec m c md2"
proof -
  have m: "map (\<lambda>k. k @ '':'' @ trim (toLowerCase (String_of (get_prop md1 k)))) (surviving_keys md2)
      = map (\<lambda>k. k @ '':'' @ trim (toLowerCase (String_of (get_prop md2 k)))) (surviving_keys md2)"
    using assms
    by (intro map_cong refl) (auto simp add: surviving_keys_set agree_on_allowed_def get_prop_def)
  show ?thesis
    unfolding canonical_spec_def agree_surviving [OF assms] m by (rule refl)
qed

lemma generateStableId_agree:
  "distinct (map fst md1) \<Longrightarrow> distinct (map fst md2) \<Longrightarrow> agree_on_allowed md1 md2 \<Longrightarrow>
   generateStableId m c (JObj md1) = generateStableId m c (JObj md2)"
  by (simp add: generateStableId_def Let_def stableString_spec agree_canonical)

lemma merged_distinct:
  "distinct (map fst (metadata_of opts)) \<Longrightarrow> distinct (map fst (merged_metadata src opts))"
  by (cases src) (simp_all add: merged_metadata_def metadata_of_def Let_def distinct_update)

lemma merged_agree: "agree_on_allowed (merged_metadata src opts) (metadata_of opts)"
  by (cases src)
    (simp_all add: agree_on_allowed_def allowedKeys_def merged_metadata_def metadata_of_def Let_def
      update_conv')

lemma agree_trans: "agree_on_allowed a b \<Longrightarrow> agree_on_allowed b c \<Longrightarrow> agree_on_allowed a c"
  by (simp add: agree_on_allowed_def)

lemma agree_sym: "agree_on_allowed a b \<Longrightarrow> agree_on_allowed b a"
  by (simp add: agree_on_allowed_def)

lemma id_createStableError:
  "id (createStableError h src opts) =
     generateStableId (message_of src) (Some (category (createStableError h src opts)))
       (JObj (merged_metadata src opts))"
  by (simp add: createStableError_def Let_def message_of_def)

text \<open>
  C1. Two calls of \<open>createStableError\<close>, on any hosts (clock and fresh stack), with sources of
  equal message (text or wrapped error, of any name and stack), options of equal category and
  any severity and statusCode, and metadata objects (with distinct keys) that agree on the six
  allow-listed keys, produce equal ids; so do two calls of \<open>generateStableId\<close> with equal
  message and category on objects that agree on the allow-listed keys.
\<close>

theorem id_pure:
  assumes "distinct (map fst (metadata_of o1))" and "distinct (map fst (metadata_of o2))"
    and "message_of src1 = message_of src2"
    and "StableErrorOptions.category o1 = StableErrorOptions.category o2"
    and "agree_on_allowed (metadata_of o1) (metadata_of o2)"
  shows "id (createStableError h1 src1 o1) = id (createStableError h2 src2 o2)
     \<and> generateStableId m c (JObj (metadata_of o1)) = generateStableId m c (JObj (metadata_of o2))"
proof -
  have c: "category (createStableError h1 src1 o1) = category (createStableError h2 src2 o2)"
    using assms(4) by (simp add: createStableError_def Let_def)
  have a: "agree_on_allowed (merged_metadata src1 o1) (merged_metadata src2 o2)"
    by (rule agree_trans [OF merged_agree agree_trans [OF assms(5) agree_sym [OF merged_agree]]])
  have "id (createStableError h1 src1 o1) = id (createStableError h2 src2 o2)"
    unfolding id_createStableError c assms(3)
    by (rule generateStableId_agree [OF merged_distinct [OF assms(1)] merged_distinct [OF assms(2)] a])
  moreover have "generateStableId m c (JObj (metadata_of o1)) = generateStableId m c (JObj (metadata_of o2))"
    by (rule generateStableId_agree [OF assms(1) assms(2) assms(5)])
  ultimately show ?thesis by (rule conjI)
qed

theorem id_pure_witness:
  "distinct (map fst (metadata_of \<lparr>StableErrorOptions.category = Some ''validation'',
       metadata = Some [(''field'', JStr ''email''), (''type'', JStr ''validation''), (''userId'', JNum 123)],
       severity = Some low, statusCode = Some 400\<rparr>))
   \<and> distinct (map fst (metadata_of \<lparr>StableErrorOptions.category = Some ''validation'',
       metadata = Some [(''userId'', JNum 456), (''type'', JStr ''validation''), (''field'', JStr ''email'')],
       severity = None, statusCode = None\<rparr>))
   \<and> message_of (Message ''User not found'')
       = message_of (Wrapped \<lparr>message = ''User not found'', name = ''TypeError'', stack = Some ''TypeError: at f''\<rparr>)
   \<and> agree_on_allowed
        (metadata_of \<lparr>StableErrorOptions.category = Some ''validation'',
           metadata = Some [(''field'', JStr ''email''), (''type'', JStr ''validation''), (''userId'', JNum 123)],
           severity = Some low, statusCode = Some 400\<rparr>)
        (metadata_of \<lparr>StableErrorOptions.category = Some ''validation'',
           metadata = Some [(''userId'', JNum 456), (''type'', JStr ''validation''), (''field'', JStr ''email'')],
           severity = None, statusCode = None\<rparr>)
   \<and> id (createStableError \<lparr>toISOString_now = ''2023-01-01T10:00:00.000Z'', new_Error_stack = Some ''Error: a''\<rparr>
          (Message ''User not found'')
          \<lparr>StableErrorOptions.category = Some ''validation'',
           metadata = Some [(''field'', JStr ''email''), (''type'', JStr ''validation''), (''userId'', JNum 123)],
           severity = Some low, statusCode = Some 400\<rparr>)
     = id (createStableError \<lparr>toISOString_now = ''2024-06-30T23:59:59.999Z'', new_Error_stack = None\<rparr>
          (Wrapped \<lparr>message = ''User not found'', name = ''TypeError'', stack = Some ''TypeError: at f''\<rparr>)
          \<lparr>StableErrorOptions.category = Some ''validation'',
           metadata = Some [(''userId'', JNum 456), (''type'', JStr ''validation''), (''field'', JStr ''email'')],
           severity = None, statusCode = None\<rparr>)"
proof -
  let ?o1 = "\<lparr>StableErrorOptions.category = Some ''validation'',
       metadata = Some [(''field'', JStr ''email''), (''type'', JStr ''validation''), (''userId'', JNum 123)],
       severity = Some low, statusCode = Some 400\<rparr>"
  let ?o2 = "\<lparr>StableErrorOptions.category = Some ''validation'',
       metadata = Some [(''userId'', JNum 456), (''type'', JStr ''validation''), (''field'', JStr ''email'')],
       severity = None, statusCode = None\<rparr>"
  let ?s1 = "Message ''User not found''"
  let ?s2 = "Wrapped \<lparr>message = ''User not found'', name = ''TypeError'', stack = Some ''TypeError: at f''\<rparr>"
  have d1: "distinct (map fst (metadata_of ?o1))" by (simp add: metadata_of_def)
  have d2: "distinct (map fst (metadata_of ?o2))" by (simp add: metadata_of_def)
  have m: "message_of ?s1 = message_of ?s2" by (simp add: message_of_def)
  have c: "StableErrorOptions.category ?o1 = StableErrorOptions.category ?o2" by simp
  have a: "agree_on_allowed (metadata_of ?o1) (metadata_of ?o2)"
    by (simp add: agree_on_allowed_def allowedKeys_def metadata_of_def)
  from id_pure [OF d1 d2 m c a] d1 d2 m a show ?thesis by blast
qed

section \<open>The builder\<close>

text \<open>
  C7, as amended. Wrapping an error gives, for every source and all options, a record with
  the message of the source, the name \<open>StableError\<close>, and the stored metadata of
  \<open>options.metadata\<close> overridden and extended by \<open>originalName\<close> (the name of the source)
  and \<open>originalStack\<close> (its stack, \<open>undefined\<close> when it has none): the two keys are added
  whatever the stack is. The stack of the source is the stack of the record when it is
  present and not the empty string.
\<close>

theorem wrapping_fidelity:
  "message (createStableError h (Wrapped e) opts) = message e
   \<and> name (createStableError h (Wrapped e) opts) = ''StableError''
   \<and> map_of (metadata (createStableError h (Wrapped e) opts)) =
       (map_of (metadata_of opts))
         (''originalName'' \<mapsto> JStr (name e),
          ''originalStack'' \<mapsto> (case stack e of None \<Rightarrow> JUndefined | Some s \<Rightarrow> JStr s))
   \<and> metadata (createStableError h (Wrapped e) opts) =
       AList.update ''originalStack'' (case stack e of None \<Rightarrow> JUndefined | Some s \<Rightarrow> JStr s)
         (AList.update ''originalName'' (JStr (name e)) (metadata_of opts))
   \<and> (stack e = Some s \<and> s \<noteq> [] \<longrightarrow> stack (createStableError h (Wrapped e) opts) = Some s)"
  by (simp add: createStableError_def Let_def merged_metadata_def metadata_of_def update_conv')

theorem wrapping_fidelity_witness:
  "stack \<lparr>message = ''Original message'', name = ''OriginalError'', stack = Some ''OriginalError: at g''\<rparr>
     = Some ''OriginalError: at g''
   \<and> ''OriginalError: at g'' \<noteq> []
   \<and> message (createStableError \<lparr>toISOString_now = ''2023-01-01T10:00:00.000Z'', new_Error_stack = Some ''Error: at h''\<rparr>
        (Wrapped \<lparr>message = ''Original message'', name = ''OriginalError'', stack = Some ''OriginalError: at g''\<rparr>)
        no_options) = ''Original message''
   \<and> name (createStableError \<lparr>toISOString_now = ''2023-01-01T10:00:00.000Z'', new_Error_stack = Some ''Error: at h''\<rparr>
        (Wrapped \<lparr>message = ''Original message'', name = ''OriginalError'', stack = Some ''OriginalError: at g''\<rparr>)
        no_options) = ''StableError''
   \<and> metadata (createStableError \<lparr>toISOString_now = ''2023-01-01T10:00:00.000Z'', new_Error_stack = Some ''Error: at h''\<rparr>
        (Wrapped \<lparr>message = ''Original message'', name = ''OriginalError'', stack = Some ''OriginalError: at g''\<rparr>)
        no_options)
       = [(''originalName'', JStr ''OriginalError''), (''originalStack'', JStr ''OriginalError: at g'')]
   \<and> stack (createStableError \<lparr>toISOString_now = ''2023-01-01T10:00:00.000Z'', new_Error_stack = Some ''Error: at h''\<rparr>
        (Wrapped \<lparr>message = ''Original message'', name = ''OriginalError'', stack = Some ''OriginalError: at g''\<rparr>)
        no_options) = Some ''OriginalError: at g''"
  using wrapping_fidelity [of "\<lparr>toISOString_now = ''2023-01-01T10:00:00.000Z'', new_Error_stack = Some ''Error: at h''\<rparr>"
       "\<lparr>message = ''Original message'', name = ''OriginalError'', stack = Some ''OriginalError: at g''\<rparr>"
       no_options "''OriginalError: at g''"]
  by (simp add: metadata_of_def no_options_def)

text \<open>
  C7, as stated, fails where the stack of the source is present and empty: the guard
  \<open>if (originalStack)\<close> leaves the record with the stack the host gave the new error.
\<close>

theorem wrapping_empty_stack_not_adopted:
  "stack (createStableError \<lparr>toISOString_now = ''2023-01-01T10:00:00.000Z'', new_Error_stack = Some ''Error: at h''\<rparr>
            (Wrapped \<lparr>message = ''boom'', name = ''Error'', stack = Some ''''\<rparr>) no_options)
     \<noteq> stack \<lparr>message = ''boom'', name = ''Error'', stack = Some ''''\<rparr>"
  by (simp add: createStableError_def Let_def)

lemma get_prop_Cons: "get_prop ((k, v) # ps) k' = (if k = k' then v else get_prop ps k')"
  by (simp add: get_prop_def)

text \<open>
  C8. \<open>toJSON\<close> of a record that \<open>createStableError\<close> produced is a mapping of exactly the
  eight keys id, message, category, metadata, severity, timestamp, statusCode and stack, each
  bound to that field of the record (the stack to \<open>undefined\<close> when the record has none, the
  timestamp being the one read from the clock at construction).
\<close>

theorem toJSON_eight_fields:
  "map fst (toJSON (createStableError h src opts)) =
     [''id'', ''message'', ''category'', ''metadata'', ''severity'', ''timestamp'', ''statusCode'', ''stack'']
   \<and> get_prop (toJSON (createStableError h src opts)) ''id'' = JStr (id (createStableError h src opts))
   \<and> get_prop (toJSON (createStableError h src opts)) ''message'' = JStr (message (createStableError h src opts))
   \<and> get_prop (toJSON (createStableError h src opts)) ''category'' = JStr (category (createStableError h src opts))
   \<and> get_prop (toJSON (createStableError h src opts)) ''metadata'' = JObj (metadata (createStableError h src opts))
   \<and> get_prop (toJSON (createStableError h src opts)) ''severity''
         = JStr (severity_text (severity (createStableError h src opts)))
   \<and> get_prop (toJSON (createStableError h src opts)) ''timestamp'' = JStr (timestamp (createStableError h src opts))
   \<and> timestamp (createStableError h src opts) = toISOString_now h
   \<and> get_prop (toJSON (createStableError h src opts)) ''statusCode'' = JNum (statusCode (createStableError h src opts))
   \<and> get_prop (toJSON (createStableError h src opts)) ''stack''
         = (case stack (createStableError h src opts) of None \<Rightarrow> JUndefined | Some s \<Rightarrow> JStr s)"
  by (simp add: toJSON_def get_prop_Cons createStableError_def Let_def)

text \<open>
  C9. A bare text message with no options gives the category \<open>general\<close>, the severity
  \<open>medium\<close>, the statusCode 500 and empty metadata; and whatever the source and the other
  options, an empty category gives \<open>general\<close>, as an absent one does.
\<close>

theorem defaults:
  "category (createStableError h (Message m) no_options) = ''general''
   \<and> severity (createStableError h (Message m) no_options) = medium
   \<and> statusCode (createStableError h (Message m) no_options) = 500
   \<and> metadata (createStableError h (Message m) no_options) = []
   \<and> category (createStableError h src (opts\<lparr>StableErrorOptions.category := Some ''''\<rparr>)) = ''general''
   \<and> category (createStableError h src (opts\<lparr>StableErrorOptions.category := None\<rparr>)) = ''general''"
  by (simp add: createStableError_def Let_def no_options_def merged_metadata_def)

text \<open>
  C10. With \<open>options.statusCode\<close> equal to 0 the record has the statusCode 500, as with an
  absent one: the default replaces the falsy values, and only them.
\<close>

theorem statusCode_zero:
  "statusCode (createStableError h src (opts\<lparr>StableErrorOptions.statusCode := Some 0\<rparr>)) = 500
   \<and> statusCode (createStableError h src (opts\<lparr>StableErrorOptions.statusCode := None\<rparr>)) = 500
   \<and> statusCode (createStableError h src opts)
       = (case StableErrorOptions.statusCode opts of None \<Rightarrow> 500 | Some n \<Rightarrow> if n = 0 then 500 else n)"
  by (simp add: createStableError_def Let_def)

section \<open>The matcher: separators, shortest matches\<close>

lemma plus_cls_sep: "\<not> P c \<Longrightarrow> plus_cls P (x @ c # b) = map (ext (c # b)) (plus_cls P x)"
  by (induction x) (simp_all add: ext_def)

lemma concat_map_ext:
  assumes "\<And>st. matches r2 (ext t st) = map (ext t) (matches r2 st)"
  shows "concat (map (matches r2) (map (ext t) sts)) = map (ext t) (concat (map (matches r2) sts))"
  by (induction sts) (simp_all add: assms)

lemma matches_sep_ext: "sep c r \<Longrightarrow> matches r (ext (c # b) st) = map (ext (c # b)) (matches r st)"
proof (induction r arbitrary: st)
  case Eps
  then show ?case by simp
next
  case (Cls P)
  then show ?case by (cases "snd st") (simp_all add: ext_def)
next
  case Bnd
  then show ?case by (cases "snd st") (simp_all add: ext_def at_boundary_def)
next
  case (Seq r1 r2)
  then have 1: "\<And>st. matches r1 (ext (c # b) st) = map (ext (c # b)) (matches r1 st)"
    and 2: "\<And>st. matches r2 (ext (c # b) st) = map (ext (c # b)) (matches r2 st)"
    by simp_all
  show ?case by (simp only: matches.simps 1 concat_map_ext [OF 2])
next
  case (Rep n r)
  then have 1: "\<And>st. matches r (ext (c # b) st) = map (ext (c # b)) (matches r st)" by simp
  show ?case
  proof (induction n arbitrary: st)
    case 0
    show ?case by simp
  next
    case (Suc n)
    show ?case by (simp only: matches.simps 1 concat_map_ext [OF Suc.IH])
  qed
next
  case (Opt r)
  then show ?case by simp
next
  case (PlusCls P)
  then show ?case by (simp add: ext_def plus_cls_sep [unfolded ext_def])
qed

lemma matches_sep:
  "sep c r \<Longrightarrow> matches r (w, x @ c # b) = map (ext (c # b)) (matches r (w, x))"
  using matches_sep_ext [of c r b "(w, x)"] by (simp add: ext_def)

lemma replaceAll_Nil:
  "replaceAll r rep w [] = (case matches r (w, []) of [] \<Rightarrow> [] | st # sts \<Rightarrow> rep)"
  by (simp add: replaceAll.simps [of r rep w "[]"] split: list.splits)

lemma replaceAll_Cons:
  "replaceAll r rep w (c # cs) =
     (case matches r (w, c # cs) of
        [] \<Rightarrow> c # replaceAll r rep (is_word c) cs
      | st # sts \<Rightarrow>
          if length (snd st) < Suc (length cs) then rep @ replaceAll r rep (fst st) (snd st)
          else rep @ c # replaceAll r rep (is_word c) cs)"
  by (simp add: replaceAll.simps [of r rep w "c # cs"] split: list.splits)

lemma replaceAll_sep:
  "sep c r \<Longrightarrow> replaceAll r rep w (x @ c # b) = replaceAll r rep w x @ c # replaceAll r rep (is_word c) b"
proof (induction "length x" arbitrary: x w rule: less_induct)
  case less
  note s = less.prems
  show ?case
  proof (cases x)
    case Nil
    show ?thesis
      using matches_sep [OF s, of w "[]" b]
      by (simp add: Nil replaceAll_Nil replaceAll_Cons ext_def split: list.splits)
  next
    case (Cons d ds)
    show ?thesis
    proof (cases "matches r (w, x)")
      case Nil
      have "replaceAll r rep (is_word d) (ds @ c # b)
          = replaceAll r rep (is_word d) ds @ c # replaceAll r rep (is_word c) b"
        by (rule less.hyps [OF _ s]) (simp add: Cons)
      then show ?thesis
        using matches_sep [OF s, of w x b] Nil
        by (simp add: Cons replaceAll_Cons)
    next
      case (Cons st sts)
      note m = Cons
      show ?thesis
      proof (cases "length (snd st) < length x")
        case True
        have "replaceAll r rep (fst st) (snd st @ c # b)
          = replaceAll r rep (fst st) (snd st) @ c # replaceAll r rep (is_word c) b"
          by (rule less.hyps [OF True s])
        then show ?thesis
          using matches_sep [OF s, of w x b] m True \<open>x = d # ds\<close>
          by (simp add: replaceAll_Cons ext_def)
      next
        case False
        have "replaceAll r rep (is_word d) (ds @ c # b)
          = replaceAll r rep (is_word d) ds @ c # replaceAll r rep (is_word c) b"
          by (rule less.hyps [OF _ s]) (simp add: \<open>x = d # ds\<close>)
        then show ?thesis
          using matches_sep [OF s, of w x b] m False \<open>x = d # ds\<close>
          by (simp add: replaceAll_Cons ext_def)
      qed
    qed
  qed
qed

lemma replace_g_Nil: "splits_at S r \<Longrightarrow> replace_g r rep [] = []"
  by (simp add: splits_at_def replace_g_def replaceAll_Nil)

lemma replace_g_sep:
  "splits_at S r \<Longrightarrow> S c \<Longrightarrow> replace_g r rep (x @ c # b) = replace_g r rep x @ c # replace_g r rep b"
  using replaceAll_sep [of c r rep False x b] by (simp add: splits_at_def replace_g_def)

lemma replace_g_left:
  assumes r: "splits_at S r" and p: "pre = [] \<or> S (last pre)"
  shows "replace_g r rep (pre @ y) = replace_g r rep pre @ replace_g r rep y"
proof (cases pre rule: rev_cases)
  case Nil
  then show ?thesis by (simp add: replace_g_Nil [OF r])
next
  case (snoc p c)
  with p have c: "S c" by simp
  have "replace_g r rep (p @ c # y) = replace_g r rep p @ c # replace_g r rep y"
    by (rule replace_g_sep [OF r c])
  moreover have "replace_g r rep (p @ [c]) = replace_g r rep p @ [c]"
    using replace_g_sep [OF r c, of rep p "[]"] by (simp add: replace_g_Nil [OF r])
  ultimately show ?thesis by (simp add: snoc)
qed

lemma replace_g_right:
  assumes r: "splits_at S r" and p: "post = [] \<or> S (hd post)"
  shows "replace_g r rep (y @ post) = replace_g r rep y @ replace_g r rep post"
proof (cases post)
  case Nil
  then show ?thesis by (simp add: replace_g_Nil [OF r])
next
  case (Cons c b)
  with p have c: "S c" by simp
  have "replace_g r rep (y @ c # b) = replace_g r rep y @ c # replace_g r rep b"
    by (rule replace_g_sep [OF r c])
  moreover have "replace_g r rep (c # b) = c # replace_g r rep b"
    using replace_g_sep [OF r c, of rep "[]" b] by (simp add: replace_g_Nil [OF r])
  ultimately show ?thesis by (simp add: Cons)
qed

lemma replace_g_keeps_last:
  assumes r: "splits_at S r" and p: "pre = [] \<or> S (last pre)"
  shows "replace_g r rep pre = [] \<or> S (last (replace_g r rep pre))"
proof (cases pre rule: rev_cases)
  case Nil
  then show ?thesis by (simp add: replace_g_Nil [OF r])
next
  case (snoc p' c)
  with p have c: "S c" by simp
  have "replace_g r rep (p' @ [c]) = replace_g r rep p' @ [c]"
    using replace_g_sep [OF r c, of rep p' "[]"] by (simp add: replace_g_Nil [OF r])
  with c show ?thesis by (simp add: snoc)
qed

lemma replace_g_keeps_hd:
  assumes r: "splits_at S r" and p: "post = [] \<or> S (hd post)"
  shows "replace_g r rep post = [] \<or> S (hd (replace_g r rep post))"
proof (cases post)
  case Nil
  then show ?thesis by (simp add: replace_g_Nil [OF r])
next
  case (Cons c b)
  with p have c: "S c" by simp
  have "replace_g r rep (c # b) = c # replace_g r rep b"
    using replace_g_sep [OF r c, of rep "[]" b] by (simp add: replace_g_Nil [OF r])
  with c show ?thesis by (simp add: Cons)
qed

lemma replace_g_three:
  assumes r: "splits_at S r" and d: "delimited S pre post"
  shows "replace_g r rep (pre @ y @ post) = replace_g r rep pre @ replace_g r rep y @ replace_g r rep post
     \<and> delimited S (replace_g r rep pre) (replace_g r rep post)"
proof -
  from d have p: "pre = [] \<or> S (last pre)" and q: "post = [] \<or> S (hd post)"
    by (simp_all add: delimited_def)
  have "replace_g r rep (pre @ y @ post) = replace_g r rep pre @ replace_g r rep (y @ post)"
    by (rule replace_g_left [OF r p])
  also have "replace_g r rep (y @ post) = replace_g r rep y @ replace_g r rep post"
    by (rule replace_g_right [OF r q])
  finally show ?thesis
    using replace_g_keeps_last [OF r p, of rep] replace_g_keeps_hd [OF r q, of rep]
    by (simp add: delimited_def)
qed

lemma plus_cls_len: "st \<in> set (plus_cls P s) \<Longrightarrow> Suc (length (snd st)) \<le> length s"
  by (induction s) (auto split: if_splits)

lemma matches_min_len:
  "st' \<in> set (matches r st) \<Longrightarrow> length (snd st') + min_len r \<le> length (snd st)"
proof (induction r arbitrary: st st')
  case Eps
  then show ?case by simp
next
  case (Cls P)
  then show ?case by (cases "snd st") (auto split: if_splits)
next
  case Bnd
  then show ?case by (auto split: if_splits)
next
  case (Seq r1 r2)
  from Seq.prems obtain st'' where 1: "st'' \<in> set (matches r1 st)" and 2: "st' \<in> set (matches r2 st'')"
    by auto
  from Seq.IH(1) [OF 1] Seq.IH(2) [OF 2] show ?case by simp
next
  case (Rep n r)
  from Rep.prems show ?case
  proof (induction n arbitrary: st)
    case 0
    then show ?case by simp
  next
    case (Suc n)
    from Suc.prems obtain st'' where 1: "st'' \<in> set (matches r st)" and 2: "st' \<in> set (matches (Rep n r) st'')"
      by auto
    from Rep.IH [OF 1] Suc.IH [OF 2] show ?case by simp
  qed
next
  case (Opt r)
  from Opt.prems Opt.IH [of st' st] show ?case by auto
next
  case (PlusCls P)
  then show ?case using plus_cls_len [of st' P "snd st"] by simp
qed

lemma matches_short: "length s < min_len r \<Longrightarrow> matches r (w, s) = []"
proof (rule ccontr)
  assume a: "length s < min_len r" and "matches r (w, s) \<noteq> []"
  then obtain st' where "st' \<in> set (matches r (w, s))" by (cases "matches r (w, s)") auto
  from matches_min_len [OF this] a show False by simp
qed

lemma replaceAll_short: "length s < min_len r \<Longrightarrow> replaceAll r rep w s = s"
proof (induction s arbitrary: w)
  case Nil
  then show ?case by (simp add: replaceAll_Nil matches_short)
next
  case (Cons c cs)
  then show ?case by (simp add: replaceAll_Cons matches_short)
qed

lemma rep_cls:
  "length ds = n \<Longrightarrow> list_all P ds \<Longrightarrow> 0 < n \<Longrightarrow>
   matches (Rep n (Cls P)) (w, ds @ rest) = [(is_word (last ds), rest)]"
proof (induction n arbitrary: ds w)
  case 0
  then show ?case by simp
next
  case (Suc n)
  then obtain d ds' where ds: "ds = d # ds'" by (cases ds) auto
  show ?case
  proof (cases "n = 0")
    case True
    with Suc.prems ds show ?thesis by simp
  next
    case False
    with Suc.prems ds have "matches (Rep n (Cls P)) (is_word d, ds' @ rest) = [(is_word (last ds'), rest)]"
      by (intro Suc.IH) auto
    with Suc.prems ds False show ?thesis by auto
  qed
qed

section \<open>The patterns of the normalizer\<close>

lemma digit_word: "is_digit c \<Longrightarrow> is_word c"
  by (simp add: is_word_def)

lemma space_facts:
  assumes "is_space c"
  shows "\<not> is_word c" "\<not> is_digit c" "\<not> is_hex c" "c \<noteq> CHR ''-''" "c \<noteq> CHR '':''" "c \<noteq> CHR ''.''"
    "\<not> chr_ci CHR ''T'' c" "\<not> chr_ci CHR ''Z'' c"
    "CHR ''-'' \<noteq> c" "CHR '':'' \<noteq> c" "CHR ''.'' \<noteq> c"
  using assms unfolding is_space_def
  by (auto simp add: is_word_def is_digit_def is_hex_def chr_ci_def lower_char_def is_upper_def)

lemma min_len_uuid: "min_len uuid_re = 36" by (simp add: uuid_re_def seq_def)
lemma min_len_timestamp: "min_len timestamp_re = 19" by (simp add: timestamp_re_def seq_def)
lemma min_len_timestamp_ms: "min_len timestamp_ms_re = 13" by (simp add: timestamp_ms_re_def seq_def)
lemma min_len_number: "min_len number_re = 1" by (simp add: number_re_def seq_def)

lemma splits_uuid: "splits_at is_space uuid_re"
  unfolding splits_at_def
  by (simp add: matches_short min_len_uuid) (simp add: uuid_re_def seq_def space_facts)

lemma splits_timestamp: "splits_at is_space timestamp_re"
  unfolding splits_at_def
  by (simp add: matches_short min_len_timestamp) (simp add: timestamp_re_def seq_def space_facts)

lemma splits_timestamp_ms: "splits_at non_word timestamp_ms_re"
  unfolding splits_at_def non_word_def
  by (simp add: matches_short min_len_timestamp_ms) (auto simp add: timestamp_ms_re_def seq_def digit_word)

lemma splits_number: "splits_at non_word number_re"
  unfolding splits_at_def non_word_def
  by (simp add: matches_short min_len_number) (auto simp add: number_re_def seq_def digit_word)

lemma matches_ms_digits:
  assumes "length ds = 13" and "list_all is_digit ds"
  shows "matches timestamp_ms_re (False, ds) = [(True, [])]"
proof -
  from assms have h: "is_word (hd ds)" and l: "is_word (last ds)" and n: "ds \<noteq> []"
    by (cases ds; auto simp add: digit_word list_all_iff)+
  have r: "matches (Rep 13 (Cls is_digit)) (False, ds @ []) = [(is_word (last ds), [])]"
    by (rule rep_cls [OF assms]) simp
  from n h obtain d ds' where ds: "ds = d # ds'" and d: "is_word d" by (cases ds) auto
  show ?thesis
    using r l by (simp add: timestamp_ms_re_def seq_def at_boundary_def ds d)
qed

lemma ms_on_digits:
  assumes "length ds = 13" and "list_all is_digit ds"
  shows "replace_g timestamp_ms_re ''TIMESTAMP_MS'' ds = ''TIMESTAMP_MS''"
proof -
  from assms obtain d ds' where ds: "ds = d # ds'" by (cases ds) auto
  have e: "matches timestamp_ms_re (True, []) = []"
    by (simp add: matches_short min_len_timestamp_ms)
  show ?thesis
    using matches_ms_digits [OF assms]
    by (simp add: replace_g_def ds replaceAll_Cons replaceAll_Nil e)
qed

lemma number_on_placeholder: "replace_g number_re ''NUMBER'' ''TIMESTAMP_MS'' = ''TIMESTAMP_MS''"
  by code_simp

lemma uuid_on_digits: "length ds = 13 \<Longrightarrow> replace_g uuid_re ''UUID'' ds = ds"
  by (simp add: replace_g_def replaceAll_short min_len_uuid)

lemma timestamp_on_digits: "length ds = 13 \<Longrightarrow> replace_g timestamp_re ''TIMESTAMP'' ds = ds"
  by (simp add: replace_g_def replaceAll_short min_len_timestamp)

lemma spaces_flag: "replaceAll spaces_re rep w s = replaceAll spaces_re rep w' s"
proof (induction "length s" arbitrary: s w w' rule: less_induct)
  case less
  show ?case
  proof (cases s)
    case Nil
    then show ?thesis by (simp add: replaceAll_Nil spaces_re_def)
  next
    case (Cons c cs)
    show ?thesis
    proof (cases "plus_cls is_space s")
      case Nil
      then show ?thesis by (simp add: Cons replaceAll_Cons spaces_re_def)
    next
      case (Cons st sts)
      have "length (snd st) < length s \<Longrightarrow>
          replaceAll spaces_re rep (fst st) (snd st) = replaceAll spaces_re rep (fst st) (snd st)"
        by simp
      with Cons show ?thesis by (simp add: \<open>s = c # cs\<close> replaceAll_Cons spaces_re_def)
    qed
  qed
qed

lemma spaces_copy:
  "list_all (\<lambda>c. \<not> is_space c) t \<Longrightarrow>
   replaceAll spaces_re rep w (t @ y) = t @ replaceAll spaces_re rep False y"
proof (induction t arbitrary: w)
  case Nil
  show ?case by (simp add: spaces_flag [of rep w y False])
next
  case (Cons c t)
  then show ?case by (simp add: replaceAll_Cons spaces_re_def)
qed

lemma spaces_around:
  assumes "list_all (\<lambda>c. \<not> is_space c) t" and "t \<noteq> []"
  shows "replace_g spaces_re rep (x @ t @ y) = replace_g spaces_re rep x @ t @ replace_g spaces_re rep y"
proof -
  from assms obtain c t' where t: "t = c # t'" and c: "\<not> is_space c" and t': "list_all (\<lambda>c. \<not> is_space c) t'"
    by (cases t) auto
  have s: "sep c spaces_re" using c by (simp add: spaces_re_def)
  show ?thesis
    using replaceAll_sep [OF s, of rep False x "t' @ y"] spaces_copy [OF t', of rep "is_word c" y]
    by (simp add: replace_g_def t)
qed

lemma rep_digits:
  "digits n ds \<Longrightarrow> 0 < n \<Longrightarrow> matches (Rep n (Cls is_digit)) (w, ds @ rest) = [(True, rest)]"
  using rep_cls [of ds n is_digit w rest]
  by (cases ds rule: rev_cases) (auto simp add: digits_def digit_word)

lemma chr_ci_simps:
  "chr_ci CHR ''T'' CHR ''T''" "chr_ci CHR ''T'' CHR ''t''" "chr_ci CHR ''Z'' CHR ''Z''"
  "chr_ci CHR ''Z'' CHR ''z''" "\<not> chr_ci CHR ''Z'' CHR ''.''"
  by (simp_all add: chr_ci_def lower_char_def is_upper_def)

lemma iso_text_length:
  "iso_parts Y M D t h mi s frac z \<Longrightarrow>
   19 \<le> length (iso_text Y M D t h mi s frac z) \<and> length (iso_text Y M D t h mi s frac z) \<le> 24"
  by (auto simp add: iso_parts_def iso_text_def digits_def)

lemma uuid_on_text:
  "iso_parts Y M D t h mi s frac z \<Longrightarrow>
   replace_g uuid_re ''UUID'' (iso_text Y M D t h mi s frac z) = iso_text Y M D t h mi s frac z"
  using iso_text_length [of Y M D t h mi s frac z]
  by (simp add: replace_g_def replaceAll_short min_len_uuid)

lemma trim_lower_Nil: "trim (toLowerCase []) = []"
  by (simp add: trim_def toLowerCase_def)

lemma digit_facts: "is_digit c \<Longrightarrow> \<not> is_upper c \<and> \<not> is_space c"
proof -
  assume d: "is_digit c"
  then have "c \<le> CHR ''9''" by (simp add: is_digit_def)
  then have 1: "\<not> CHR ''A'' \<le> c" and 2: "\<not> CHR 0xC0 \<le> c"
    by (auto dest: order_trans)
  from d have 3: "\<not> is_space c" by (auto simp add: is_digit_def is_space_def)
  from 1 2 3 show ?thesis by (simp add: is_upper_def)
qed

lemma lower_digits: "list_all is_digit s \<Longrightarrow> toLowerCase s = s"
  by (induction s) (simp_all add: toLowerCase_def lower_char_def digit_facts)

lemma trim_id: "s \<noteq> [] \<Longrightarrow> \<not> is_space (hd s) \<Longrightarrow> \<not> is_space (last s) \<Longrightarrow> trim s = s"
proof -
  assume s: "s \<noteq> []" and h: "\<not> is_space (hd s)" and l: "\<not> is_space (last s)"
  from s h have 1: "dropWhile is_space s = s" by (cases s) auto
  from s l have 2: "dropWhile is_space (rev s) = rev s"
    by (cases s rule: rev_cases) auto
  show ?thesis by (simp add: trim_def 1 2)
qed

lemma trim_lower_digits:
  assumes "digits n ds" and "0 < n"
  shows "trim (toLowerCase ds) = ds"
proof -
  from assms have n: "ds \<noteq> []" and a: "list_all is_digit ds" by (auto simp add: digits_def)
  from n a have "is_digit (hd ds)" "is_digit (last ds)" by (auto simp add: list_all_iff)
  then have "\<not> is_space (hd ds)" "\<not> is_space (last ds)" by (simp_all add: digit_facts)
  with n show ?thesis by (simp add: lower_digits [OF a] trim_id)
qed

lemma digit_rules_Nil: "digit_rules [] = []"
  by code_simp

lemma after_two_rules_Nil:
  "replace_g timestamp_re ''TIMESTAMP'' (replace_g uuid_re ''UUID'' (trim (toLowerCase []))) = []"
  by (simp add: trim_lower_Nil replace_g_Nil [OF splits_uuid] replace_g_Nil [OF splits_timestamp])

lemma digit_rules_at_run:
  assumes "digits 13 ds" and d: "delimited non_word pre post"
  shows "digit_rules (pre @ ds @ post) = digit_rules pre @ ''TIMESTAMP_MS'' @ digit_rules post"
proof -
  from assms have l: "length ds = 13" and a: "list_all is_digit ds"
    by (auto simp add: digits_def)
  note 1 = replace_g_three [OF splits_timestamp_ms d, of "''TIMESTAMP_MS''" ds]
  note 2 = replace_g_three [OF splits_number conjunct2 [OF 1], of "''NUMBER''" "''TIMESTAMP_MS''"]
  have p: "list_all (\<lambda>c. \<not> is_space c) ''TIMESTAMP_MS''" "''TIMESTAMP_MS'' \<noteq> []"
    by (simp_all add: is_space_def)
  show ?thesis
    by (simp only: digit_rules_def conjunct1 [OF 1] ms_on_digits [OF l a] conjunct1 [OF 2]
          number_on_placeholder spaces_around [OF p])
qed

lemma normalize_at_run:
  assumes "digits 13 ds" and "delimited non_word pre post"
    and u: "replace_g timestamp_re ''TIMESTAMP'' (replace_g uuid_re ''UUID'' (trim (toLowerCase m)))
              = pre @ ds @ post"
  shows "normalizeMessage m = digit_rules pre @ ''TIMESTAMP_MS'' @ digit_rules post"
proof -
  from assms(1) have n: "ds \<noteq> []" by (auto simp add: digits_def)
  have "m \<noteq> []"
  proof
    assume "m = []"
    with u n after_two_rules_Nil show False by simp
  qed
  then have "normalizeMessage m = digit_rules (pre @ ds @ post)"
    by (simp add: normalizeMessage_def Let_def u digit_rules_def)
  then show ?thesis
    by (simp only: digit_rules_at_run [OF assms(1,2)])
qed

text \<open>
  C5, as amended. The rule \<open>/\b\d{13}\b/g\<close> acts on the text that the UUID rule and the
  timestamp rule leave. Every run of exactly 13 digits that is word-bounded in that text (a
  non-word character, or an end of the text, on either side) comes out of the normalizer as
  \<open>TIMESTAMP_MS\<close>, whatever stands before and after it: the number rule and the rule for
  white space, which run next, leave the placeholder alone, so the run never becomes
  \<open>NUMBER\<close>, and the texts before and after it are rewritten on their own. A message of 13
  digits normalizes to \<open>TIMESTAMP_MS\<close>.
\<close>

theorem timestamp_ms_before_number:
  assumes "digits 13 ds"
  shows "(replace_g timestamp_re ''TIMESTAMP'' (replace_g uuid_re ''UUID'' (trim (toLowerCase m)))
            = pre @ ds @ post
          \<and> delimited non_word pre post \<longrightarrow>
            normalizeMessage m = digit_rules pre @ ''TIMESTAMP_MS'' @ digit_rules post)
       \<and> normalizeMessage ds = ''TIMESTAMP_MS''"
proof -
  from assms have l: "length ds = 13" by (simp add: digits_def)
  have 1: "replace_g timestamp_re ''TIMESTAMP'' (replace_g uuid_re ''UUID'' (trim (toLowerCase m)))
            = pre @ ds @ post
          \<and> delimited non_word pre post \<longrightarrow>
            normalizeMessage m = digit_rules pre @ ''TIMESTAMP_MS'' @ digit_rules post"
    using normalize_at_run [OF assms] by blast
  have d0: "delimited non_word [] []" by (simp add: delimited_def)
  have "replace_g timestamp_re ''TIMESTAMP'' (replace_g uuid_re ''UUID'' (trim (toLowerCase ds)))
          = [] @ ds @ []"
    using trim_lower_digits [OF assms] by (simp add: uuid_on_digits [OF l] timestamp_on_digits [OF l])
  from normalize_at_run [OF assms d0 this] have 2: "normalizeMessage ds = ''TIMESTAMP_MS''"
    by (simp add: digit_rules_Nil)
  from 1 2 show ?thesis by (rule conjI)
qed

lemma example_ms_facts:
  "digits 13 ''1672531200000''"
  "delimited non_word ''error at '' []"
  "replace_g timestamp_re ''TIMESTAMP'' (replace_g uuid_re ''UUID'' (trim (toLowerCase ''Error at 1672531200000'')))
     = ''error at '' @ ''1672531200000'' @ []"
  "digit_rules ''error at '' = ''error at ''"
  "delimited non_word ''-'' ''.5''"
  "replace_g timestamp_re ''TIMESTAMP'' (replace_g uuid_re ''UUID'' (trim (toLowerCase ''-1672531200000.5'')))
     = ''-'' @ ''1672531200000'' @ ''.5''"
  "digit_rules ''-'' = ''-''"
  "digit_rules ''.5'' = ''.NUMBER''"
  by (simp_all add: digits_def is_digit_def delimited_def non_word_def is_word_def) code_simp+

theorem timestamp_ms_before_number_witness:
  "digits 13 ''1672531200000''
   \<and> replace_g timestamp_re ''TIMESTAMP'' (replace_g uuid_re ''UUID'' (trim (toLowerCase ''Error at 1672531200000'')))
       = ''error at '' @ ''1672531200000'' @ []
   \<and> delimited non_word ''error at '' []
   \<and> normalizeMessage ''Error at 1672531200000'' = ''error at TIMESTAMP_MS''
   \<and> replace_g timestamp_re ''TIMESTAMP'' (replace_g uuid_re ''UUID'' (trim (toLowerCase ''-1672531200000.5'')))
       = ''-'' @ ''1672531200000'' @ ''.5''
   \<and> delimited non_word ''-'' ''.5''
   \<and> normalizeMessage ''-1672531200000.5'' = ''-TIMESTAMP_MS.NUMBER''"
  using timestamp_ms_before_number [OF example_ms_facts(1), of "''Error at 1672531200000''" "''error at ''" "[]"]
    timestamp_ms_before_number [OF example_ms_facts(1), of "''-1672531200000.5''" "''-''" "''.5''"]
    example_ms_facts
  by (simp add: digit_rules_Nil)

lemma uuid_takes_twelve_digits:
  "normalizeMessage ''id 550e8400-e29b-41d4-a716-1672531200000'' = ''id UUID0''"
  by code_simp

lemma fraction_takes_three_digits:
  "normalizeMessage ''at 2023-01-01T10:00:00.1672531200000'' = ''at TIMESTAMP2531200000''"
  by code_simp

text \<open>
  C5, as stated, fails for a word-bounded run of 13 digits of the message that an earlier
  rule reaches. In \<open>id 550e8400-e29b-41d4-a716-1672531200000\<close> the run stands between a
  hyphen and the end of the message; the UUID rule takes its first twelve digits as the last
  group of a UUID, and the normalized message holds neither \<open>TIMESTAMP_MS\<close> nor \<open>NUMBER\<close>.
  In \<open>at 2023-01-01T10:00:00.1672531200000\<close> the run stands between a point and the end; the
  timestamp rule takes its first three digits as the fraction.
\<close>

theorem timestamp_ms_not_of_message:
  "digits 13 ''1672531200000''
   \<and> delimited non_word ''id 550e8400-e29b-41d4-a716-'' []
   \<and> trim (toLowerCase ''id 550e8400-e29b-41d4-a716-1672531200000'')
       = ''id 550e8400-e29b-41d4-a716-'' @ ''1672531200000'' @ []
   \<and> normalizeMessage ''id 550e8400-e29b-41d4-a716-1672531200000'' = ''id UUID0''
   \<and> delimited non_word ''at 2023-01-01t10:00:00.'' []
   \<and> trim (toLowerCase ''at 2023-01-01T10:00:00.1672531200000'')
       = ''at 2023-01-01t10:00:00.'' @ ''1672531200000'' @ []
   \<and> normalizeMessage ''at 2023-01-01T10:00:00.1672531200000'' = ''at TIMESTAMP2531200000''"
  by (simp add: uuid_takes_twelve_digits fraction_takes_three_digits digits_def is_digit_def
        delimited_def non_word_def is_word_def)
     code_simp+

lemma lower_literals:
  "lower_char CHR ''-'' = CHR ''-''" "lower_char CHR '':'' = CHR '':''" "lower_char CHR ''.'' = CHR ''.''"
  "lower_char CHR ''T'' = CHR ''t''" "lower_char CHR ''t'' = CHR ''t''"
  "lower_char CHR ''Z'' = CHR ''z''" "lower_char CHR ''z'' = CHR ''z''"
  by (simp_all add: lower_char_def is_upper_def)

lemma lower_iso:
  assumes "iso_parts Y M D t h mi s frac z"
  shows "toLowerCase (iso_text Y M D t h mi s frac z) = iso_text Y M D CHR ''t'' h mi s frac (toLowerCase z)"
    and "iso_parts Y M D CHR ''t'' h mi s frac (toLowerCase z)"
proof -
  from assms have p: "list_all is_digit Y" "list_all is_digit M" "list_all is_digit D"
    "list_all is_digit h" "list_all is_digit mi" "list_all is_digit s"
    and t: "t = CHR ''T'' \<or> t = CHR ''t''"
    and f: "frac = [] \<or> (hd frac = CHR ''.'' \<and> digits 3 (tl frac))"
    and z: "z = [] \<or> z = ''Z'' \<or> z = ''z''"
    by (simp_all add: iso_parts_def digits_def)
  from f have lf: "toLowerCase frac = frac"
  proof
    assume "frac = []"
    then show ?thesis by (simp add: toLowerCase_def)
  next
    assume a: "hd frac = CHR ''.'' \<and> digits 3 (tl frac)"
    then obtain F where F: "frac = CHR ''.'' # F" "list_all is_digit F"
      by (cases frac) (auto simp add: digits_def)
    from lower_digits [OF F(2)] show ?thesis
      by (simp add: F(1) toLowerCase_def lower_literals)
  qed
  from t have lt: "lower_char t = CHR ''t''" by (auto simp add: lower_literals)
  have "toLowerCase (iso_text Y M D t h mi s frac z)
      = toLowerCase Y @ ''-'' @ toLowerCase M @ ''-'' @ toLowerCase D @ [lower_char t] @ toLowerCase h
        @ '':'' @ toLowerCase mi @ '':'' @ toLowerCase s @ toLowerCase frac @ toLowerCase z"
    by (simp add: iso_text_def toLowerCase_def lower_literals)
  then show "toLowerCase (iso_text Y M D t h mi s frac z) = iso_text Y M D CHR ''t'' h mi s frac (toLowerCase z)"
    by (simp only: p [THEN lower_digits] lf lt iso_text_def)
  from z have "toLowerCase z = [] \<or> toLowerCase z = ''Z'' \<or> toLowerCase z = ''z''"
    by (auto simp add: toLowerCase_def lower_literals)
  with assms show "iso_parts Y M D CHR ''t'' h mi s frac (toLowerCase z)"
    by (simp add: iso_parts_def)
qed

lemma iso_text_ends:
  assumes "iso_parts Y M D t h mi s frac z"
  shows "\<not> is_space (hd (iso_text Y M D t h mi s frac z))"
    and "\<not> is_space (last (iso_text Y M D t h mi s frac z))"
proof -
  from assms have Y: "Y \<noteq> []" "list_all is_digit Y" and s: "s \<noteq> []" "list_all is_digit s"
    and f: "frac = [] \<or> (hd frac = CHR ''.'' \<and> digits 3 (tl frac))"
    and z: "z = [] \<or> z = ''Z'' \<or> z = ''z''"
    by (auto simp add: iso_parts_def digits_def)
  from Y have "is_digit (hd Y)" by (cases Y) auto
  with Y(1) show "\<not> is_space (hd (iso_text Y M D t h mi s frac z))"
    by (simp add: iso_text_def digit_facts)
  from s have ls: "\<not> is_space (last s)" by (cases s rule: rev_cases) (auto simp add: digit_facts)
  have lf: "frac \<noteq> [] \<Longrightarrow> \<not> is_space (last frac)"
  proof -
    assume n: "frac \<noteq> []"
    with f obtain F where F: "frac = CHR ''.'' # F" "length F = 3" "list_all is_digit F"
      by (cases frac) (auto simp add: digits_def)
    then have "F \<noteq> []" by auto
    with F(3) have "is_digit (last F)" by (cases F rule: rev_cases) auto
    with \<open>F \<noteq> []\<close> show ?thesis by (simp add: F(1) digit_facts)
  qed
  have lz: "z \<noteq> [] \<Longrightarrow> \<not> is_space (last z)"
    using z by (auto simp add: is_space_def)
  show "\<not> is_space (last (iso_text Y M D t h mi s frac z))"
    using ls lf lz s(1) by (cases "z = []"; cases "frac = []") (simp_all add: iso_text_def)
qed

section \<open>The matcher: characters no class accepts, positions of the scan\<close>

lemma plus_cls_rejects:
  "\<not> P c \<Longrightarrow> y \<noteq> [] \<Longrightarrow> last y = c \<Longrightarrow>
   plus_cls P (y @ b) = map (ext b) (plus_cls P y) \<and> (\<forall>st \<in> set (plus_cls P y). ends_with c st)"
proof (induction y)
  case Nil
  then show ?case by simp
next
  case (Cons d y)
  show ?case
  proof (cases "y = []")
    case True
    with Cons.prems show ?thesis by (simp add: ext_def)
  next
    case False
    with Cons.prems Cons.IH show ?thesis by (auto simp add: ext_def ends_with_def)
  qed
qed

lemma concat_map_ext_on:
  assumes "\<And>st. st \<in> set sts \<Longrightarrow> matches r2 (ext t st) = map (ext t) (matches r2 st)"
  shows "concat (map (matches r2) (map (ext t) sts)) = map (ext t) (concat (map (matches r2) sts))"
  using assms by (induction sts) simp_all

lemma matches_rejects:
  "rejects c r \<Longrightarrow> ends_with c st \<Longrightarrow>
   matches r (ext b st) = map (ext b) (matches r st) \<and> (\<forall>st' \<in> set (matches r st). ends_with c st')"
proof (induction r arbitrary: st)
  case Eps
  then show ?case by simp
next
  case (Cls P)
  obtain w y where st: "st = (w, y)" by (cases st)
  with Cls.prems obtain d y' where y: "y = d # y'" by (cases y) (auto simp add: ends_with_def)
  show ?case
  proof (cases "y' = []")
    case True
    with Cls.prems st y show ?thesis by (simp add: ext_def ends_with_def)
  next
    case False
    with Cls.prems st y show ?thesis by (simp add: ext_def ends_with_def)
  qed
next
  case Bnd
  then show ?case by (cases "snd st") (simp_all add: ext_def at_boundary_def ends_with_def)
next
  case (Seq r1 r2)
  from Seq.prems have 1: "rejects c r1" and 2: "rejects c r2" by simp_all
  note a = Seq.IH(1) [OF 1 Seq.prems(2)]
  have b: "\<And>st'. st' \<in> set (matches r1 st) \<Longrightarrow>
      matches r2 (ext b st') = map (ext b) (matches r2 st') \<and> (\<forall>st'' \<in> set (matches r2 st'). ends_with c st'')"
    using a Seq.IH(2) [OF 2] by blast
  have "matches (Seq r1 r2) (ext b st) = map (ext b) (matches (Seq r1 r2) st)"
    using concat_map_ext_on [of "matches r1 st" r2 b] a b by simp
  moreover have "\<forall>st' \<in> set (matches (Seq r1 r2) st). ends_with c st'"
    using b by auto
  ultimately show ?case by blast
next
  case (Rep n r)
  from Rep.prems have 1: "rejects c r" by simp
  have "\<And>st. ends_with c st \<Longrightarrow>
      matches (Rep n r) (ext b st) = map (ext b) (matches (Rep n r) st)
      \<and> (\<forall>st' \<in> set (matches (Rep n r) st). ends_with c st')"
  proof (induction n)
    case 0
    then show ?case by simp
  next
    case (Suc n)
    note a = Rep.IH [OF 1 Suc.prems]
    have b: "\<And>st'. st' \<in> set (matches r st) \<Longrightarrow>
        matches (Rep n r) (ext b st') = map (ext b) (matches (Rep n r) st')
        \<and> (\<forall>st'' \<in> set (matches (Rep n r) st'). ends_with c st'')"
      using a Suc.IH by blast
    have "matches (Rep (Suc n) r) (ext b st) = map (ext b) (matches (Rep (Suc n) r) st)"
      using concat_map_ext_on [of "matches r st" "Rep n r" b] a b by simp
    moreover have "\<forall>st' \<in> set (matches (Rep (Suc n) r) st). ends_with c st'"
      using b by auto
    ultimately show ?case by blast
  qed
  with Rep.prems show ?case by blast
next
  case (Opt r)
  then show ?case by simp
next
  case (PlusCls P)
  obtain w y where st: "st = (w, y)" by (cases st)
  with PlusCls.prems plus_cls_rejects [of P c y b] show ?case
    by (simp add: ext_def ends_with_def)
qed

lemma matches_rejects_eq:
  "rejects c r \<Longrightarrow> matches r (w, y @ c # b) = map (ext b) (matches r (w, y @ [c]))"
  using matches_rejects [of c r "(w, y @ [c])" b] by (simp add: ext_def ends_with_def)

lemma matches_rejects_ends:
  "rejects c r \<Longrightarrow> st \<in> set (matches r (w, y @ [c])) \<Longrightarrow> \<exists>y'. snd st = y' @ [c]"
proof -
  assume "rejects c r" and a: "st \<in> set (matches r (w, y @ [c]))"
  then have "ends_with c st"
    using matches_rejects [of c r "(w, y @ [c])" "[]"] by (simp add: ends_with_def)
  then show ?thesis
    by (cases "snd st" rule: rev_cases) (auto simp add: ends_with_def)
qed

lemma matches_rejected_head:
  assumes "rejects c r" and "0 < min_len r"
  shows "matches r (w, c # s) = []"
proof -
  have "matches r (w, [c]) = []"
  proof (rule ccontr)
    assume "matches r (w, [c]) \<noteq> []"
    then obtain st where st: "st \<in> set (matches r (w, [c]))" by (cases "matches r (w, [c])") auto
    from matches_rejects_ends [OF assms(1), of st w "[]"] st obtain y' where "snd st = y' @ [c]" by auto
    with matches_min_len [OF st] assms(2) show False by simp
  qed
  with matches_rejects_eq [OF assms(1), of w "[]" s] show ?thesis by simp
qed

lemma replaceAll_rejects:
  assumes r: "rejects c r" and l: "0 < min_len r"
  shows "replaceAll r rep w (x @ c # b)
       = butlast (replaceAll r rep w (x @ [c])) @ c # replaceAll r rep (is_word c) b"
proof (induction "length x" arbitrary: x w b rule: less_induct)
  case less
  have e: "\<And>w. matches r (w, []) = []" using l by (simp add: matches_short)
  have h: "\<And>w. matches r (w, [c]) = []" by (rule matches_rejected_head [OF r l])
  have k: "\<And>w s. matches r (w, c # s) = []" by (rule matches_rejected_head [OF r l])
  have ne: "\<And>x' w'. length x' < length x \<Longrightarrow> replaceAll r rep w' (x' @ [c]) \<noteq> []"
  proof -
    fix x' :: string and w'
    assume "length x' < length x"
    from less.hyps [OF this, of w' "[]"]
    have "replaceAll r rep w' (x' @ [c]) = butlast (replaceAll r rep w' (x' @ [c])) @ [c]"
      by (simp add: replaceAll_Nil e)
    then show "replaceAll r rep w' (x' @ [c]) \<noteq> []"
      by (metis snoc_eq_iff_butlast)
  qed
  show ?case
  proof (cases x)
    case Nil
    show ?thesis by (simp add: Nil replaceAll_Cons replaceAll_Nil e h k)
  next
    case (Cons d ds)
    have m: "matches r (w, x @ c # b) = map (ext b) (matches r (w, x @ [c]))"
      by (rule matches_rejects_eq [OF r])
    show ?thesis
    proof (cases "matches r (w, x @ [c])")
      case Nil
      have "length ds < length x" by (simp add: Cons)
      from less.hyps [OF this, of "is_word d" b] ne [OF this, of "is_word d"] Nil m
      show ?thesis by (simp add: Cons replaceAll_Cons)
    next
      case (Cons st sts)
      from matches_rejects_ends [OF r, of st w x] Cons obtain y' where y': "snd st = y' @ [c]" by auto
      show ?thesis
      proof (cases "length (snd st) < length (x @ [c])")
        case True
        then have s: "length y' < length x" by (simp add: y')
        from less.hyps [OF s, of "fst st" b] ne [OF s, of "fst st"] m Cons True y' \<open>x = d # ds\<close>
        show ?thesis by (simp add: replaceAll_Cons ext_def butlast_append)
      next
        case False
        have "length ds < length x" by (simp add: \<open>x = d # ds\<close>)
        from less.hyps [OF this, of "is_word d" b] ne [OF this, of "is_word d"] m Cons False y' \<open>x = d # ds\<close>
        show ?thesis by (simp add: replaceAll_Cons ext_def butlast_append)
      qed
    qed
  qed
qed

lemma replaceAll_copy:
  "list_all (\<lambda>c. rejects c r \<and> is_word c) t \<Longrightarrow> 0 < min_len r \<Longrightarrow>
   replaceAll r rep True (t @ y) = t @ replaceAll r rep True y"
  by (induction t) (simp_all add: replaceAll_Cons matches_rejected_head)

lemma replace_g_placeholder:
  assumes p: "rejects c r" "is_word c" and t: "list_all (\<lambda>c. rejects c r \<and> is_word c) t" and l: "0 < min_len r"
  shows "replace_g r rep (x @ (c # t) @ y)
       = butlast (replace_g r rep (x @ [c])) @ (c # t) @ replaceAll r rep True y"
  using replaceAll_rejects [OF p(1) l, of rep False x "t @ y"] replaceAll_copy [OF t l, of rep y] p(2)
  by (simp add: replace_g_def)

lemma replace_g_last:
  assumes r: "rejects c r" and l: "0 < min_len r"
  shows "replace_g r rep (x @ [c]) = butlast (replace_g r rep (x @ [c])) @ [c]"
  using replaceAll_rejects [OF r l, of rep False x "[]"] l
  by (simp add: replace_g_def replaceAll_Nil matches_short)

lemma plus_cls_suffix: "st \<in> set (plus_cls P s) \<Longrightarrow> \<exists>p. s = p @ snd st"
proof (induction s)
  case Nil
  then show ?case by simp
next
  case (Cons c s)
  then show ?case by (auto split: if_splits intro: exI [of _ "[c]"])
qed

lemma matches_suffix: "st' \<in> set (matches r st) \<Longrightarrow> \<exists>p. snd st = p @ snd st'"
proof (induction r arbitrary: st st')
  case Eps
  then show ?case by simp
next
  case (Cls P)
  then show ?case by (cases "snd st") (auto split: if_splits intro: exI [of _ "[x]" for x])
next
  case Bnd
  then show ?case by (auto split: if_splits)
next
  case (Seq r1 r2)
  from Seq.prems obtain st'' where 1: "st'' \<in> set (matches r1 st)" and 2: "st' \<in> set (matches r2 st'')"
    by auto
  from Seq.IH(1) [OF 1] Seq.IH(2) [OF 2] show ?case by (metis append.assoc)
next
  case (Rep n r)
  from Rep.prems show ?case
  proof (induction n arbitrary: st)
    case 0
    then show ?case by simp
  next
    case (Suc n)
    from Suc.prems obtain st'' where 1: "st'' \<in> set (matches r st)" and 2: "st' \<in> set (matches (Rep n r) st'')"
      by auto
    from Rep.IH [OF 1] Suc.IH [OF 2] show ?case by (metis append.assoc)
  qed
next
  case (Opt r)
  from Opt.prems Opt.IH [of st' st] show ?case by auto
next
  case (PlusCls P)
  then show ?case using plus_cls_suffix [of st' P "snd st"] by simp
qed

lemma drop_to_suffix:
  assumes "st \<in> set (matches r (w, s))"
  shows "drop (length s - length (snd st)) s = snd st"
proof -
  from matches_suffix [OF assms] obtain p where "s = p @ snd st" by auto
  then show ?thesis by (metis add_diff_cancel_right' append_eq_conv_conj length_append)
qed

lemma scan_to_replaceAll:
  "scan_to r rep w s k = Some (out, v) \<Longrightarrow> replaceAll r rep w s = out @ replaceAll r rep v (drop k s)"
proof (induction r rep w s k arbitrary: out rule: scan_to.induct)
  case (1 r rep w s k)
  from "1.prems" have p:
    "(if k = 0 then Some ([], w)
      else case matches r (w, s) of
        [] \<Rightarrow> (case s of [] \<Rightarrow> None
               | c # cs \<Rightarrow> map_option (\<lambda>p. (c # fst p, snd p)) (scan_to r rep (is_word c) cs (k - 1)))
      | st # _ \<Rightarrow>
          if length (snd st) < length s
          then (if length s - length (snd st) \<le> k
                then map_option (\<lambda>p. (rep @ fst p, snd p))
                       (scan_to r rep (fst st) (snd st) (k - (length s - length (snd st))))
                else None)
          else (case s of [] \<Rightarrow> None
                | c # cs \<Rightarrow> map_option (\<lambda>p. (rep @ c # fst p, snd p)) (scan_to r rep (is_word c) cs (k - 1))))
     = Some (out, v)"
    by (simp only: scan_to.simps [of r rep w s k])
  show ?case
  proof (cases "k = 0")
    case True
    with p show ?thesis by simp
  next
    case k: False
    show ?thesis
    proof (cases "matches r (w, s)")
      case Nil
      show ?thesis
      proof (cases s)
        case Nil
        with p k \<open>matches r (w, s) = []\<close> show ?thesis by simp
      next
        case (Cons c cs)
        from p k Nil Cons obtain o' where
          o: "scan_to r rep (is_word c) cs (k - 1) = Some (o', v)" "out = c # o'"
          by auto
        from "1.IH"(1) [OF k Nil Cons o(1)] k show ?thesis
          by (cases k) (simp_all add: Cons o(2) replaceAll_Cons Nil [unfolded Cons])
      qed
    next
      case (Cons st sts)
      note m = Cons
      show ?thesis
      proof (cases "length (snd st) < length s")
        case True
        from p k m True obtain o' where
          le: "length s - length (snd st) \<le> k"
          and o: "scan_to r rep (fst st) (snd st) (k - (length s - length (snd st))) = Some (o', v)"
            "out = rep @ o'"
          by (auto split: if_splits)
        have st: "st \<in> set (matches r (w, s))" by (simp add: m)
        have d: "drop (k - (length s - length (snd st))) (snd st) = drop k s"
          using drop_to_suffix [OF st] le by (metis drop_drop le_add_diff_inverse2)
        from True obtain c cs where s: "s = c # cs" by (cases s) auto
        from "1.IH"(2) [OF k m True le o(1)]
        have ih: "replaceAll r rep (fst st) (snd st) = o' @ replaceAll r rep v (drop k s)"
          by (simp only: d)
        have "replaceAll r rep w s = rep @ replaceAll r rep (fst st) (snd st)"
          using m True by (simp add: s replaceAll_Cons)
        then show ?thesis by (simp only: ih o(2) append_assoc)
      next
        case False
        show ?thesis
        proof (cases s)
          case Nil
          with p k m False show ?thesis by simp
        next
          case (Cons c cs)
          from p k m False Cons obtain o' where
            o: "scan_to r rep (is_word c) cs (k - 1) = Some (o', v)" "out = rep @ c # o'"
            by auto
          from "1.IH"(3) [OF k m False Cons o(1)] k m False show ?thesis
            by (cases k) (simp_all add: Cons o(2) replaceAll_Cons)
        qed
      qed
    qed
  qed
qed

lemma scan_to_start: "scan_to r rep w s 0 = Some ([], w)"
  by (simp add: scan_to.simps [of r rep w s 0])

lemma scan_to_Suc_Nil:
  "matches r (w, c # cs) = [] \<Longrightarrow>
   scan_to r rep w (c # cs) (Suc k) = map_option (\<lambda>p. (c # fst p, snd p)) (scan_to r rep (is_word c) cs k)"
  by (simp add: scan_to.simps [of r rep w "c # cs" "Suc k"])

lemma scan_to_Suc_match:
  "matches r (w, s) = st # sts \<Longrightarrow> length (snd st) < length s \<Longrightarrow> length s - length (snd st) \<le> k \<Longrightarrow> 0 < k \<Longrightarrow>
   scan_to r rep w s k
   = map_option (\<lambda>p. (rep @ fst p, snd p)) (scan_to r rep (fst st) (snd st) (k - (length s - length (snd st))))"
  by (simp add: scan_to.simps [of r rep w s k])

lemma scan_to_Suc_empty:
  "matches r (w, c # cs) = st # sts \<Longrightarrow> \<not> length (snd st) < length (c # cs) \<Longrightarrow>
   scan_to r rep w (c # cs) (Suc k) = map_option (\<lambda>p. (rep @ c # fst p, snd p)) (scan_to r rep (is_word c) cs k)"
  by (simp add: scan_to.simps [of r rep w "c # cs" "Suc k"])

lemma scan_to_rejects:
  assumes r: "rejects c r" and l: "0 < min_len r"
  shows "scan_to r rep w (x @ c # b) (Suc (length x)) = Some (replaceAll r rep w (x @ [c]), is_word c)"
proof (induction "length x" arbitrary: x w rule: less_induct)
  case less
  have e: "\<And>w. matches r (w, []) = []" using l by (simp add: matches_short)
  have k: "\<And>w s. matches r (w, c # s) = []" by (rule matches_rejected_head [OF r l])
  show ?case
  proof (cases x)
    case Nil
    show ?thesis
      by (simp add: Nil scan_to_Suc_Nil scan_to_start k replaceAll_Cons replaceAll_Nil e)
  next
    case (Cons d ds)
    have m: "matches r (w, x @ c # b) = map (ext b) (matches r (w, x @ [c]))"
      by (rule matches_rejects_eq [OF r])
    have ds: "length ds < length x" by (simp add: Cons)
    show ?thesis
    proof (cases "matches r (w, x @ [c])")
      case Nil
      with m have "matches r (w, d # ds @ c # b) = []" by (simp add: Cons)
      from scan_to_Suc_Nil [OF this, of rep "Suc (length ds)"] less.hyps [OF ds, of "is_word d"] Nil
      show ?thesis by (simp add: Cons replaceAll_Cons)
    next
      case (Cons st sts)
      from matches_rejects_ends [OF r, of st w x] Cons obtain y' where y': "snd st = y' @ [c]" by auto
      from m Cons have m': "matches r (w, x @ c # b) = ext b st # map (ext b) sts" by simp
      show ?thesis
      proof (cases "length (snd st) < length (x @ [c])")
        case True
        then have s: "length y' < length x" by (simp add: y')
        have 1: "length (snd (ext b st)) < length (x @ c # b)" using s by (simp add: ext_def y')
        have 2: "length (x @ c # b) - length (snd (ext b st)) \<le> Suc (length x)"
          by (simp add: ext_def y')
        have 3: "Suc (length x) - (length (x @ c # b) - length (snd (ext b st))) = Suc (length y')"
          using s by (simp add: ext_def y')
        have 4: "snd (ext b st) = y' @ c # b" "fst (ext b st) = fst st" by (simp_all add: ext_def y')
        have 5: "Suc (length x) - (length x - length y') = Suc (length y')" using s by simp
        from scan_to_Suc_match [OF m' 1 2, of rep] less.hyps [OF s, of "fst st"]
        have "scan_to r rep w (x @ c # b) (Suc (length x))
            = Some (rep @ replaceAll r rep (fst st) (y' @ [c]), is_word c)"
          by (simp add: 4 5)
        moreover have "replaceAll r rep w (x @ [c]) = rep @ replaceAll r rep (fst st) (y' @ [c])"
          using Cons True y' \<open>x = d # ds\<close> by (simp add: replaceAll_Cons)
        ultimately show ?thesis by simp
      next
        case False
        then have 1: "\<not> length (snd (ext b st)) < length (d # ds @ c # b)"
          by (simp add: ext_def y' \<open>x = d # ds\<close>)
        from m' have m'': "matches r (w, d # ds @ c # b) = ext b st # map (ext b) sts"
          by (simp add: \<open>x = d # ds\<close>)
        from scan_to_Suc_empty [OF m'' 1, of rep "Suc (length ds)"] less.hyps [OF ds, of "is_word d"]
        have "scan_to r rep w (x @ c # b) (Suc (length x))
            = Some (rep @ d # replaceAll r rep (is_word d) (ds @ [c]), is_word c)"
          by (simp add: \<open>x = d # ds\<close>)
        moreover have "replaceAll r rep w (x @ [c]) = rep @ d # replaceAll r rep (is_word d) (ds @ [c])"
          using Cons False \<open>x = d # ds\<close> by (simp add: replaceAll_Cons)
        ultimately show ?thesis by simp
      qed
    qed
  qed
qed

section \<open>The timestamp pattern at a position of the scan\<close>

lemma rep_cls_none:
  "\<not> (n \<le> length s \<and> list_all P (take n s)) \<Longrightarrow> matches (Rep n (Cls P)) (w, s) = []"
proof (induction n arbitrary: w s)
  case 0
  then show ?case by simp
next
  case (Suc n)
  show ?case
  proof (cases s)
    case Nil
    then show ?thesis by simp
  next
    case (Cons c cs)
    with Suc.prems have "P c \<Longrightarrow> \<not> (n \<le> length cs \<and> list_all P (take n cs))" by auto
    from Suc.IH [OF this] show ?thesis by (simp add: Cons)
  qed
qed

lemma zone_matches:
  assumes z: "z = [] \<or> z = ''Z'' \<or> z = ''z''" and n: "z = [] \<longrightarrow> post = [] \<or> \<not> chr_ci CHR ''Z'' (hd post)"
  shows "\<exists>sts. matches (Seq (Opt (Cls (chr_ci CHR ''Z''))) Eps) (True, z @ post) = (True, post) # sts"
proof (cases "z = []")
  case True
  with n show ?thesis by (cases post) auto
next
  case False
  with z show ?thesis by (auto simp add: chr_ci_simps is_word_def)
qed

lemma tail_matches_post:
  assumes f: "frac = [] \<or> (hd frac = CHR ''.'' \<and> digits 3 (tl frac))"
    and z: "z = [] \<or> z = ''Z'' \<or> z = ''z''"
    and c: "\<not> continues frac z post"
  shows "\<exists>sts. concat (map (matches (Seq (Opt (Cls (chr_ci CHR ''Z''))) Eps))
            (matches (Opt (Seq (Cls ((=) CHR ''.'')) (Rep 3 (Cls is_digit)))) (True, frac @ z @ post)))
         = (True, post) # sts"
proof -
  from c have n: "z = [] \<longrightarrow> post = [] \<or> \<not> chr_ci CHR ''Z'' (hd post)"
    by (auto simp add: continues_def)
  from zone_matches [OF z n] obtain sts where
    zm: "matches (Seq (Opt (Cls (chr_ci CHR ''Z''))) Eps) (True, z @ post) = (True, post) # sts" by blast
  from f consider "frac = []" | F where "frac = CHR ''.'' # F" "digits 3 F"
    by (cases frac) auto
  then show ?thesis
  proof cases
    case 1
    have e: "matches (Seq (Cls ((=) CHR ''.'')) (Rep 3 (Cls is_digit))) (True, z @ post) = []"
    proof (cases "z = []")
      case True
      show ?thesis
      proof (cases post)
        case Nil
        with True show ?thesis by simp
      next
        case (Cons d ds)
        show ?thesis
        proof (cases "d = CHR ''.''")
          case False
          with True Cons show ?thesis by simp
        next
          case dot: True
          with c 1 \<open>z = []\<close> Cons have "\<not> (3 \<le> length ds \<and> list_all is_digit (take 3 ds))"
            by (simp add: continues_def)
          from rep_cls_none [OF this] True Cons dot show ?thesis by simp
        qed
      qed
    next
      case False
      with z show ?thesis by auto
    qed
    have o: "matches (Opt (Seq (Cls ((=) CHR ''.'')) (Rep 3 (Cls is_digit)))) (True, z @ post) = [(True, z @ post)]"
      by (simp only: matches.simps(7) e append_Nil)
    have "concat (map (matches (Seq (Opt (Cls (chr_ci CHR ''Z''))) Eps))
            (matches (Opt (Seq (Cls ((=) CHR ''.'')) (Rep 3 (Cls is_digit)))) (True, frac @ z @ post)))
         = (True, post) # sts"
      by (simp only: 1 append_Nil o list.map concat.simps append_Nil2 zm)
    then show ?thesis by blast
  next
    case 2
    have "matches (Rep 3 (Cls is_digit)) (False, F @ z @ post) = [(True, z @ post)]"
      by (rule rep_digits [OF 2(2)]) simp
    with zm show ?thesis by (simp add: 2(1) is_word_def is_digit_def)
  qed
qed

lemma timestamp_matches_before:
  assumes "iso_parts Y M D t h mi s frac z" and "\<not> continues frac z post"
  shows "\<exists>sts. matches timestamp_re (w, iso_text Y M D t h mi s frac z @ post) = (True, post) # sts"
proof -
  from assms have p: "digits 4 Y" "digits 2 M" "digits 2 D" "t = CHR ''T'' \<or> t = CHR ''t''"
    "digits 2 h" "digits 2 mi" "digits 2 s"
    and f: "frac = [] \<or> (hd frac = CHR ''.'' \<and> digits 3 (tl frac))"
    and z: "z = [] \<or> z = ''Z'' \<or> z = ''z''"
    by (simp_all add: iso_parts_def)
  from p(4) have t: "chr_ci CHR ''T'' t" by (auto simp add: chr_ci_simps)
  show ?thesis
    using tail_matches_post [OF f z assms(2)]
    by (simp add: timestamp_re_def seq_def iso_text_def rep_digits p t)
qed

lemma timestamp_at_scan:
  assumes i: "iso_parts Y M D t h mi s frac z" and c: "\<not> continues frac z post"
  shows "replaceAll timestamp_re ''TIMESTAMP'' w (iso_text Y M D t h mi s frac z @ post)
       = ''TIMESTAMP'' @ replaceAll timestamp_re ''TIMESTAMP'' True post"
proof -
  from timestamp_matches_before [OF i c, of w] obtain sts where
    m: "matches timestamp_re (w, iso_text Y M D t h mi s frac z @ post) = (True, post) # sts" by blast
  from iso_text_length [OF i] obtain d ds where n: "iso_text Y M D t h mi s frac z = d # ds"
    by (cases "iso_text Y M D t h mi s frac z") auto
  show ?thesis
    using m by (simp add: n replaceAll_Cons)
qed

lemma later_rule_placeholder:
  assumes "r = timestamp_ms_re \<or> r = number_re"
  shows "replace_g r rep (x @ ''TIMESTAMP'' @ y)
       = butlast (replace_g r rep (x @ ''T'')) @ ''TIMESTAMP'' @ replaceAll r rep True y"
    and "replace_g r rep (x @ ''T'') = butlast (replace_g r rep (x @ ''T'')) @ ''T''"
proof -
  from assms have l: "0 < min_len r" by (auto simp add: min_len_timestamp_ms min_len_number)
  have j: "\<And>c. \<not> is_digit c \<Longrightarrow> rejects c r"
    using assms by (auto simp add: timestamp_ms_re_def number_re_def seq_def)
  have T: "rejects CHR ''T'' r" "is_word CHR ''T''"
    by (rule j) (simp_all add: is_digit_def is_word_def)
  have t: "list_all (\<lambda>c. rejects c r \<and> is_word c) ''IMESTAMP''"
    using j by (simp add: is_digit_def is_word_def)
  from replace_g_placeholder [OF T t l, of rep x y]
  show "replace_g r rep (x @ ''TIMESTAMP'' @ y)
       = butlast (replace_g r rep (x @ ''T'')) @ ''TIMESTAMP'' @ replaceAll r rep True y"
    by simp
  from replace_g_last [OF T(1) l, of rep x]
  show "replace_g r rep (x @ ''T'') = butlast (replace_g r rep (x @ ''T'')) @ ''T''" by simp
qed

lemma later_rules_placeholder:
  "replace_g spaces_re '' '' (replace_g number_re ''NUMBER''
     (replace_g timestamp_ms_re ''TIMESTAMP_MS'' (a @ ''TIMESTAMP'' @ b)))
   = front a @ ''TIMESTAMP''
     @ replace_g spaces_re '' '' (replaceAll number_re ''NUMBER'' True
         (replaceAll timestamp_ms_re ''TIMESTAMP_MS'' True b))"
proof -
  let ?a1 = "butlast (replace_g timestamp_ms_re ''TIMESTAMP_MS'' (a @ ''T''))"
  let ?b1 = "replaceAll timestamp_ms_re ''TIMESTAMP_MS'' True b"
  have 1: "replace_g timestamp_ms_re ''TIMESTAMP_MS'' (a @ ''TIMESTAMP'' @ b) = ?a1 @ ''TIMESTAMP'' @ ?b1"
    by (rule later_rule_placeholder(1)) simp
  have 2: "replace_g number_re ''NUMBER'' (?a1 @ ''TIMESTAMP'' @ ?b1)
      = butlast (replace_g number_re ''NUMBER'' (?a1 @ ''T'')) @ ''TIMESTAMP''
        @ replaceAll number_re ''NUMBER'' True ?b1"
    by (rule later_rule_placeholder(1)) simp
  have 3: "?a1 @ ''T'' = replace_g timestamp_ms_re ''TIMESTAMP_MS'' (a @ ''T'')"
    by (rule later_rule_placeholder(2) [symmetric]) simp
  have p: "list_all (\<lambda>c. \<not> is_space c) ''TIMESTAMP''" "''TIMESTAMP'' \<noteq> []"
    by (simp_all add: is_space_def)
  show ?thesis
    by (simp only: 1 2 3 spaces_around [OF p] front_def)
qed

section \<open>The timestamp rule\<close>

lemma front_Nil: "front [] = []"
  by code_simp

lemma behind_Nil: "behind [] = []"
  by code_simp

lemma timestamp_rule_at_scan:
  assumes "iso_parts Y M D t h mi s frac z" and "\<not> continues frac z post"
    and "scan_to timestamp_re ''TIMESTAMP'' w (pre @ iso_text Y M D t h mi s frac z @ post) (length pre)
           = Some (a, v)"
  shows "replaceAll timestamp_re ''TIMESTAMP'' w (pre @ iso_text Y M D t h mi s frac z @ post)
       = a @ ''TIMESTAMP'' @ replaceAll timestamp_re ''TIMESTAMP'' True post"
  using scan_to_replaceAll [OF assms(3)] by (simp add: timestamp_at_scan [OF assms(1,2)])

lemma normalize_at_timestamp:
  assumes i: "iso_parts Y M D t h mi s frac z" and c: "\<not> continues frac z post"
    and u: "replace_g uuid_re ''UUID'' (trim (toLowerCase m)) = pre @ iso_text Y M D t h mi s frac z @ post"
    and k: "scan_to timestamp_re ''TIMESTAMP'' False (pre @ iso_text Y M D t h mi s frac z @ post) (length pre)
           = Some (a, v)"
  shows "normalizeMessage m = front a @ ''TIMESTAMP'' @ behind post"
proof -
  from iso_text_length [OF i] have n: "iso_text Y M D t h mi s frac z \<noteq> []" by auto
  have m: "m \<noteq> []"
  proof
    assume "m = []"
    then have "replace_g uuid_re ''UUID'' (trim (toLowerCase m)) = []"
      by (simp add: trim_lower_Nil replace_g_Nil [OF splits_uuid])
    with u n show False by simp
  qed
  have "replace_g timestamp_re ''TIMESTAMP'' (pre @ iso_text Y M D t h mi s frac z @ post)
      = a @ ''TIMESTAMP'' @ replaceAll timestamp_re ''TIMESTAMP'' True post"
    using timestamp_rule_at_scan [OF i c k] by (simp only: replace_g_def)
  then have "replace_g timestamp_re ''TIMESTAMP'' (replace_g uuid_re ''UUID'' (trim (toLowerCase m)))
      = a @ ''TIMESTAMP'' @ replaceAll timestamp_re ''TIMESTAMP'' True post"
    by (simp only: u)
  with m have "normalizeMessage m = replace_g spaces_re '' '' (replace_g number_re ''NUMBER''
      (replace_g timestamp_ms_re ''TIMESTAMP_MS''
        (a @ ''TIMESTAMP'' @ replaceAll timestamp_re ''TIMESTAMP'' True post)))"
    by (simp add: normalizeMessage_def Let_def)
  then show ?thesis
    by (simp only: later_rules_placeholder behind_def)
qed

lemma normalize_timestamp_alone:
  assumes "iso_parts Y M D t h mi s frac z"
  shows "normalizeMessage (iso_text Y M D t h mi s frac z) = ''TIMESTAMP''"
proof -
  note l = lower_iso [OF assms]
  from iso_text_length [OF l(2)] have n: "iso_text Y M D CHR ''t'' h mi s frac (toLowerCase z) \<noteq> []"
    by auto
  have "trim (toLowerCase (iso_text Y M D t h mi s frac z)) = iso_text Y M D CHR ''t'' h mi s frac (toLowerCase z)"
    unfolding l(1) by (rule trim_id [OF n iso_text_ends [OF l(2)]])
  then have u: "replace_g uuid_re ''UUID'' (trim (toLowerCase (iso_text Y M D t h mi s frac z)))
      = [] @ iso_text Y M D CHR ''t'' h mi s frac (toLowerCase z) @ []"
    by (simp add: uuid_on_text [OF l(2)])
  have c: "\<not> continues frac (toLowerCase z) []" by (simp add: continues_def)
  have k: "scan_to timestamp_re ''TIMESTAMP'' False
      ([] @ iso_text Y M D CHR ''t'' h mi s frac (toLowerCase z) @ []) (length ([] :: string)) = Some ([], False)"
    by (simp add: scan_to_start)
  from normalize_at_timestamp [OF l(2) c u k] show ?thesis
    by (simp add: front_Nil behind_Nil)
qed

lemma chr_ci_Z: "chr_ci CHR ''Z'' c \<Longrightarrow> c = CHR ''Z'' \<or> c = CHR ''z''"
proof (cases c)
  case (Char b0 b1 b2 b3 b4 b5 b6 b7)
  assume "chr_ci CHR ''Z'' c"
  then show ?thesis
    unfolding Char chr_ci_def lower_char_def is_upper_def
    by (cases b5) (auto split: if_splits)
qed

lemma chr_ci_T: "chr_ci CHR ''T'' c \<Longrightarrow> c = CHR ''T'' \<or> c = CHR ''t''"
proof (cases c)
  case (Char b0 b1 b2 b3 b4 b5 b6 b7)
  assume "chr_ci CHR ''T'' c"
  then show ?thesis
    unfolding Char chr_ci_def lower_char_def is_upper_def
    by (cases b5) (auto split: if_splits)
qed

lemma rejects_timestamp: "\<not> timestamp_char c \<Longrightarrow> rejects c timestamp_re"
  using chr_ci_T [of c] chr_ci_Z [of c]
  by (auto simp add: timestamp_char_def timestamp_re_def seq_def)

lemma normalize_after_rejected:
  assumes i: "iso_parts Y M D t h mi s frac z" and c: "\<not> continues frac z post"
    and u: "replace_g uuid_re ''UUID'' (trim (toLowerCase m)) = x @ c # iso_text Y M D t h mi s frac z @ post"
    and r: "\<not> timestamp_char c"
  shows "normalizeMessage m
       = front (replace_g timestamp_re ''TIMESTAMP'' (x @ [c])) @ ''TIMESTAMP'' @ behind post"
proof -
  have l: "0 < min_len timestamp_re" by (simp add: min_len_timestamp)
  from scan_to_rejects [OF rejects_timestamp [OF r] l, of "''TIMESTAMP''" False x "iso_text Y M D t h mi s frac z @ post"]
  have k: "scan_to timestamp_re ''TIMESTAMP'' False ((x @ [c]) @ iso_text Y M D t h mi s frac z @ post) (length (x @ [c]))
      = Some (replace_g timestamp_re ''TIMESTAMP'' (x @ [c]), is_word c)"
    by (simp add: replace_g_def)
  from u have u': "replace_g uuid_re ''UUID'' (trim (toLowerCase m)) = (x @ [c]) @ iso_text Y M D t h mi s frac z @ post"
    by simp
  from normalize_at_timestamp [OF i c u' k] show ?thesis .
qed

text \<open>
  A text of the shape with anything behind it is, from the same first character, a text of
  the shape that takes the fraction and the \<open>Z\<close> standing behind it: the longest reading
  meets the condition on what follows, so the condition leaves no timestamp out.
\<close>

lemma zone_maximal:
  "\<exists>z' post'. post = z' @ post' \<and> (z' = [] \<or> z' = ''Z'' \<or> z' = ''z'')
     \<and> \<not> (z' = [] \<and> post' \<noteq> [] \<and> chr_ci CHR ''Z'' (hd post'))"
proof (cases "post \<noteq> [] \<and> chr_ci CHR ''Z'' (hd post)")
  case True
  then obtain c cs where p: "post = c # cs" and c: "chr_ci CHR ''Z'' c" by (cases post) auto
  from chr_ci_Z [OF c] have "[c] = ''Z'' \<or> [c] = ''z''" by simp
  with p have "post = [c] @ cs \<and> ([c] = [] \<or> [c] = ''Z'' \<or> [c] = ''z'')
     \<and> \<not> ([c] = [] \<and> cs \<noteq> [] \<and> chr_ci CHR ''Z'' (hd cs))" by simp
  then show ?thesis by blast
next
  case False
  then have "post = [] @ post \<and> (([] :: string) = [] \<or> [] = ''Z'' \<or> [] = ''z'')
     \<and> \<not> (([] :: string) = [] \<and> post \<noteq> [] \<and> chr_ci CHR ''Z'' (hd post))" by simp
  then show ?thesis by blast
qed

lemma iso_text_maximal:
  assumes "iso_parts Y M D t h mi s frac z"
  shows "\<exists>frac' z' post'. iso_text Y M D t h mi s frac z @ post = iso_text Y M D t h mi s frac' z' @ post'
           \<and> iso_parts Y M D t h mi s frac' z' \<and> \<not> continues frac' z' post'"
proof -
  let ?G = "\<exists>frac' z' post'. iso_text Y M D t h mi s frac z @ post = iso_text Y M D t h mi s frac' z' @ post'
           \<and> iso_parts Y M D t h mi s frac' z' \<and> \<not> continues frac' z' post'"
  have g: "\<And>frac' z' post'. frac @ z @ post = frac' @ z' @ post' \<Longrightarrow>
      frac' = [] \<or> (hd frac' = CHR ''.'' \<and> digits 3 (tl frac')) \<Longrightarrow> z' = [] \<or> z' = ''Z'' \<or> z' = ''z'' \<Longrightarrow>
      \<not> continues frac' z' post' \<Longrightarrow> ?G"
  proof -
    fix frac' z' post'
    assume a: "frac @ z @ post = frac' @ z' @ post'"
      and f: "frac' = [] \<or> (hd frac' = CHR ''.'' \<and> digits 3 (tl frac'))"
      and z: "z' = [] \<or> z' = ''Z'' \<or> z' = ''z''" and c: "\<not> continues frac' z' post'"
    from a have "iso_text Y M D t h mi s frac z @ post = iso_text Y M D t h mi s frac' z' @ post'"
      by (simp add: iso_text_def)
    moreover from assms f z have "iso_parts Y M D t h mi s frac' z'" by (simp add: iso_parts_def)
    ultimately show ?G using c by blast
  qed
  from assms have f: "frac = [] \<or> (hd frac = CHR ''.'' \<and> digits 3 (tl frac))"
    and z: "z = [] \<or> z = ''Z'' \<or> z = ''z''" by (simp_all add: iso_parts_def)
  show ?G
  proof (cases "z = []")
    case False
    then have "\<not> continues frac z post" by (simp add: continues_def)
    from g [OF refl f z this] show ?G .
  next
    case zn: True
    show ?G
    proof (cases "frac = [] \<and> post \<noteq> [] \<and> hd post = CHR ''.'' \<and> 3 \<le> length (tl post) \<and> list_all is_digit (take 3 (tl post))")
      case True
      let ?f = "take 4 post"
      from True have f': "?f = [] \<or> (hd ?f = CHR ''.'' \<and> digits 3 (tl ?f))"
        by (cases post) (auto simp add: digits_def)
      from True have ne: "?f \<noteq> []" by auto
      from zone_maximal [of "drop 4 post"] obtain z' post' where
        p: "drop 4 post = z' @ post'" and z': "z' = [] \<or> z' = ''Z'' \<or> z' = ''z''"
        and n: "\<not> (z' = [] \<and> post' \<noteq> [] \<and> chr_ci CHR ''Z'' (hd post'))" by blast
      from n ne have c: "\<not> continues ?f z' post'" by (auto simp add: continues_def)
      have "frac @ z @ post = ?f @ z' @ post'"
        using True zn p by (metis append_Nil append_take_drop_id)
      from g [OF this f' z' c] show ?G .
    next
      case False
      from zone_maximal [of post] obtain z' post' where
        p: "post = z' @ post'" and z': "z' = [] \<or> z' = ''Z'' \<or> z' = ''z''"
        and n: "\<not> (z' = [] \<and> post' \<noteq> [] \<and> chr_ci CHR ''Z'' (hd post'))" by blast
      have c: "\<not> continues frac z' post'"
      proof (cases "z' = []")
        case True
        with p False n show ?thesis by (auto simp add: continues_def)
      next
        case False
        then show ?thesis by (simp add: continues_def)
      qed
      have "frac @ z @ post = frac @ z' @ post'" using zn p by simp
      from g [OF this f z' c] show ?G .
    qed
  qed
qed

text \<open>
  C6, as amended. The timestamp rule acts on the text that the UUID rule leaves, and scans it
  from left to right. A text \<open>YYYY-MM-DDThh:mm:ss\<close>, with an optional fraction of exactly
  three digits and an optional \<open>Z\<close>, taken with the fraction and the \<open>Z\<close> that follow it, is
  replaced by the single placeholder \<open>TIMESTAMP\<close> wherever the scan stands at its first
  character, that is, unless an earlier match of the rule ends inside it: by the rule on any
  text, and by the whole normalizer, where the later rules leave the placeholder alone and
  rewrite what stands before and after it. The scan stands there, in particular, behind every
  character that the pattern accepts nowhere (any but a digit, \<open>-\<close>, \<open>:\<close>, \<open>.\<close>, \<open>T\<close> and \<open>Z\<close>
  of either case); of what follows the timestamp nothing is asked but that the fraction and
  the \<open>Z\<close> standing there be taken with it. A message that is such a text normalizes to
  \<open>TIMESTAMP\<close>.
\<close>

theorem iso_timestamp_replaced:
  assumes "iso_parts Y M D t h mi s frac z"
  shows "(\<not> continues frac z post
          \<and> scan_to timestamp_re ''TIMESTAMP'' w (pre @ iso_text Y M D t h mi s frac z @ post) (length pre)
              = Some (a, v) \<longrightarrow>
            replaceAll timestamp_re ''TIMESTAMP'' w (pre @ iso_text Y M D t h mi s frac z @ post)
            = a @ ''TIMESTAMP'' @ replaceAll timestamp_re ''TIMESTAMP'' True post)
       \<and> (\<not> continues frac z post
          \<and> replace_g uuid_re ''UUID'' (trim (toLowerCase m)) = pre @ iso_text Y M D t h mi s frac z @ post
          \<and> scan_to timestamp_re ''TIMESTAMP'' False (pre @ iso_text Y M D t h mi s frac z @ post) (length pre)
              = Some (a, v) \<longrightarrow>
            normalizeMessage m = front a @ ''TIMESTAMP'' @ behind post)
       \<and> (\<not> continues frac z post
          \<and> replace_g uuid_re ''UUID'' (trim (toLowerCase m)) = x @ c # iso_text Y M D t h mi s frac z @ post
          \<and> \<not> timestamp_char c \<longrightarrow>
            normalizeMessage m
            = front (replace_g timestamp_re ''TIMESTAMP'' (x @ [c])) @ ''TIMESTAMP'' @ behind post)
       \<and> normalizeMessage (iso_text Y M D t h mi s frac z) = ''TIMESTAMP''"
proof -
  have 1: "\<not> continues frac z post
          \<and> scan_to timestamp_re ''TIMESTAMP'' w (pre @ iso_text Y M D t h mi s frac z @ post) (length pre)
              = Some (a, v) \<longrightarrow>
            replaceAll timestamp_re ''TIMESTAMP'' w (pre @ iso_text Y M D t h mi s frac z @ post)
            = a @ ''TIMESTAMP'' @ replaceAll timestamp_re ''TIMESTAMP'' True post"
    using timestamp_rule_at_scan [OF assms] by blast
  have 2: "\<not> continues frac z post
          \<and> replace_g uuid_re ''UUID'' (trim (toLowerCase m)) = pre @ iso_text Y M D t h mi s frac z @ post
          \<and> scan_to timestamp_re ''TIMESTAMP'' False (pre @ iso_text Y M D t h mi s frac z @ post) (length pre)
              = Some (a, v) \<longrightarrow>
            normalizeMessage m = front a @ ''TIMESTAMP'' @ behind post"
    using normalize_at_timestamp [OF assms] by blast
  have 3: "\<not> continues frac z post
          \<and> replace_g uuid_re ''UUID'' (trim (toLowerCase m)) = x @ c # iso_text Y M D t h mi s frac z @ post
          \<and> \<not> timestamp_char c \<longrightarrow>
            normalizeMessage m
            = front (replace_g timestamp_re ''TIMESTAMP'' (x @ [c])) @ ''TIMESTAMP'' @ behind post"
    using normalize_after_rejected [OF assms] by blast
  note 4 = normalize_timestamp_alone [OF assms]
  from 1 2 3 4 show ?thesis by (intro conjI)
qed

lemma example_iso_facts:
  "iso_parts ''2024'' ''12'' ''31'' CHR ''t'' ''23'' ''59'' ''59'' ''.999'' ''z''"
  "\<not> continues ''.999'' ''z'' '': failed''"
  "replace_g uuid_re ''UUID'' (trim (toLowerCase ''From 2023-01-01T10:00:00Z to 2024-12-31T23:59:59.999Z: failed''))
     = ''from 2023-01-01t10:00:00z to '' @ iso_text ''2024'' ''12'' ''31'' CHR ''t'' ''23'' ''59'' ''59'' ''.999'' ''z''
       @ '': failed''"
  "scan_to timestamp_re ''TIMESTAMP'' False
     (''from 2023-01-01t10:00:00z to '' @ iso_text ''2024'' ''12'' ''31'' CHR ''t'' ''23'' ''59'' ''59'' ''.999'' ''z''
       @ '': failed'') (length ''from 2023-01-01t10:00:00z to '')
     = Some (''from TIMESTAMP to '', False)"
  "front ''from TIMESTAMP to '' = ''from TIMESTAMP to ''"
  "behind '': failed'' = '': failed''"
  by (simp_all add: iso_parts_def digits_def is_digit_def continues_def) code_simp+

lemma example_iso_inside_word:
  "iso_parts ''2023'' ''01'' ''01'' CHR ''t'' ''10'' ''00'' ''00'' [] ''z''"
  "\<not> continues [] ''z'' ''9''"
  "replace_g uuid_re ''UUID'' (trim (toLowerCase ''x2023-01-01T10:00:00Z9''))
     = [] @ CHR ''x'' # iso_text ''2023'' ''01'' ''01'' CHR ''t'' ''10'' ''00'' ''00'' [] ''z'' @ ''9''"
  "\<not> timestamp_char CHR ''x''"
  "front (replace_g timestamp_re ''TIMESTAMP'' ([] @ ''x'')) = ''x''"
  "behind ''9'' = ''9''"
  by (simp_all add: iso_parts_def digits_def is_digit_def continues_def timestamp_char_def) code_simp+

theorem iso_timestamp_replaced_witness:
  "iso_parts ''2024'' ''12'' ''31'' CHR ''t'' ''23'' ''59'' ''59'' ''.999'' ''z''
   \<and> \<not> continues ''.999'' ''z'' '': failed''
   \<and> replace_g uuid_re ''UUID'' (trim (toLowerCase ''From 2023-01-01T10:00:00Z to 2024-12-31T23:59:59.999Z: failed''))
       = ''from 2023-01-01t10:00:00z to '' @ iso_text ''2024'' ''12'' ''31'' CHR ''t'' ''23'' ''59'' ''59'' ''.999'' ''z''
         @ '': failed''
   \<and> scan_to timestamp_re ''TIMESTAMP'' False
       (''from 2023-01-01t10:00:00z to '' @ iso_text ''2024'' ''12'' ''31'' CHR ''t'' ''23'' ''59'' ''59'' ''.999'' ''z''
         @ '': failed'') (length ''from 2023-01-01t10:00:00z to '')
       = Some (''from TIMESTAMP to '', False)
   \<and> normalizeMessage ''From 2023-01-01T10:00:00Z to 2024-12-31T23:59:59.999Z: failed''
       = ''from TIMESTAMP to TIMESTAMP: failed''
   \<and> iso_parts ''2023'' ''01'' ''01'' CHR ''t'' ''10'' ''00'' ''00'' [] ''z''
   \<and> \<not> continues [] ''z'' ''9''
   \<and> replace_g uuid_re ''UUID'' (trim (toLowerCase ''x2023-01-01T10:00:00Z9''))
       = [] @ CHR ''x'' # iso_text ''2023'' ''01'' ''01'' CHR ''t'' ''10'' ''00'' ''00'' [] ''z'' @ ''9''
   \<and> \<not> timestamp_char CHR ''x''
   \<and> normalizeMessage ''x2023-01-01T10:00:00Z9'' = ''xTIMESTAMP9''"
  using iso_timestamp_replaced [OF example_iso_facts(1),
      of "'': failed''" False "''from 2023-01-01t10:00:00z to ''" "''from TIMESTAMP to ''" False
         "''From 2023-01-01T10:00:00Z to 2024-12-31T23:59:59.999Z: failed''"]
    iso_timestamp_replaced [OF example_iso_inside_word(1),
      of "''9''" _ _ _ _ "''x2023-01-01T10:00:00Z9''" "[]" "CHR ''x''"]
    example_iso_facts example_iso_inside_word
  by simp

lemma six_fraction_digits:
  "normalizeMessage ''Error at 2023-01-01T10:00:00.123456Z'' = ''error at TIMESTAMP456z''"
  by code_simp

lemma uuid_takes_year:
  "normalizeMessage ''id 550e8400-e29b-41d4-a716-446655442023-01-01T10:00:00Z''
     = ''id UUID-NUMBER-01t10:NUMBER:00z''"
  by code_simp

lemma earlier_match_takes_first_digit:
  "normalizeMessage ''2023-01-01T10:00:02024-05-06T07:08:09'' = ''TIMESTAMP024-NUMBER-06t07:NUMBER:NUMBER''"
  by code_simp

text \<open>
  C6, as stated, fails in three ways. A fraction of six digits: the pattern takes three of
  them, and the other three and the \<open>Z\<close> stay behind the placeholder. A timestamp whose year
  ends a UUID shape: the UUID rule, which runs first, takes the year, and no timestamp is
  left for the rule. A timestamp that begins inside an earlier match of the rule: in
  \<open>2023-01-01T10:00:02024-05-06T07:08:09\<close> the match of the first 19 characters takes the
  first digit of \<open>2024-05-06T07:08:09\<close>.
\<close>

theorem iso_timestamp_not_single_placeholder:
  "normalizeMessage ''Error at 2023-01-01T10:00:00.123456Z'' = ''error at TIMESTAMP456z''
   \<and> normalizeMessage ''Error at 2023-01-01T10:00:00.123456Z'' \<noteq> ''error at TIMESTAMP''
   \<and> normalizeMessage ''id 550e8400-e29b-41d4-a716-446655442023-01-01T10:00:00Z''
       = ''id UUID-NUMBER-01t10:NUMBER:00z''
   \<and> normalizeMessage ''2023-01-01T10:00:02024-05-06T07:08:09''
       = ''TIMESTAMP024-NUMBER-06t07:NUMBER:NUMBER''"
  by (simp add: six_fraction_digits uuid_takes_year earlier_match_takes_first_digit)

end
